theory Spec2Isabelle
  imports Main "HOL-Library.Multiset"
begin

section \<open>JavaScript arrays as lists\<close>

text \<open>
  The controller of \<^verbatim>\<open>useFieldArray.ts\<close> works on two JavaScript arrays: the value
  array owned by the form store and the entry array owned by the controller. Both are
  modelled as HOL lists. An index argument is a JavaScript number or \<^verbatim>\<open>undefined\<close>
  (an omitted argument); it is an \<open>int option\<close>, with \<open>None\<close> for \<^verbatim>\<open>undefined\<close>.
  Numbers that are not integers (fractions, NaN, the infinities) are left out of the
  model, and the key counter is an unbounded natural number (a JavaScript number counts
  exactly up to \<open>2^53\<close>).
\<close>

type_synonym jsindex = "int option"

definition to_integer :: "jsindex \<Rightarrow> int" where
  \<comment> \<open>ToIntegerOrInfinity: \<^verbatim>\<open>undefined\<close> converts to NaN, and NaN to 0.\<close>
  "to_integer a = (case a of None \<Rightarrow> 0 | Some i \<Rightarrow> i)"

definition relative_index :: "int \<Rightarrow> nat \<Rightarrow> nat" where
  \<comment> \<open>How \<^verbatim>\<open>splice\<close> and \<^verbatim>\<open>slice\<close> read a position: a negative one counts from the
      end, and the result is clamped to \<open>0..len\<close>.\<close>
  "relative_index i len = (if i < 0 then nat (max (int len + i) 0) else min (nat i) len)"

definition js_in :: "jsindex \<Rightarrow> 'a list \<Rightarrow> bool" where
  \<comment> \<open>\<^verbatim>\<open>index in array\<close> on a dense array: the property keys are \<open>0..len-1\<close>
      (and names, which no number converts to).\<close>
  "js_in a data = (case a of None \<Rightarrow> False | Some i \<Rightarrow> 0 \<le> i \<and> i < int (length data))"

definition js_nth :: "'a list \<Rightarrow> int \<Rightarrow> 'a option" where
  \<comment> \<open>\<^verbatim>\<open>array[i]\<close>: \<open>None\<close> stands for the \<^verbatim>\<open>undefined\<close> read outside the array.\<close>
  "js_nth data i = (if 0 \<le> i \<and> i < int (length data) then Some (data ! nat i) else None)"

definition splice :: "'a list \<Rightarrow> jsindex \<Rightarrow> nat \<Rightarrow> 'a list \<Rightarrow> 'a list \<times> 'a list" where
  \<comment> \<open>\<^verbatim>\<open>data.splice(start, deleteCount, ...items)\<close>: the removed elements and the
      array as it is afterwards.\<close>
  "splice data start deleteCount items =
     (let s = relative_index (to_integer start) (length data);
          d = min deleteCount (length data - s)
      in (take d (drop s data), take s data @ items @ drop (s + d) data))"

definition slice :: "'a list \<Rightarrow> jsindex \<Rightarrow> jsindex \<Rightarrow> 'a list" where
  \<comment> \<open>\<^verbatim>\<open>data.slice(start, end)\<close>; an \<^verbatim>\<open>undefined\<close> end is the length.\<close>
  "slice data start end =
     (let k = relative_index (to_integer start) (length data);
          final = (case end of None \<Rightarrow> length data
                   | Some e \<Rightarrow> relative_index e (length data))
      in take (final - k) (drop k data))"

primrec findIndex :: "('a \<Rightarrow> bool) \<Rightarrow> 'a list \<Rightarrow> int" where
  "findIndex P [] = - 1"
| "findIndex P (x # xs) =
     (if P x then 0 else (let r = findIndex P xs in if r = - 1 then - 1 else r + 1))"

fun string_of_nat :: "nat \<Rightarrow> string" where
  "string_of_nat n =
     (if n < 10 then [''0123456789'' ! n]
      else string_of_nat (n div 10) @ [''0123456789'' ! (n mod 10)])"

declare string_of_nat.simps [simp del]

definition string_of_int :: "int \<Rightarrow> string" where
  \<comment> \<open>The decimal text a template literal gives an integer.\<close>
  "string_of_int i = (if i < 0 then ''-'' @ string_of_nat (nat (- i)) else string_of_nat (nat i))"


section \<open>The array transforms\<close>

text \<open>
  \<^verbatim>\<open>swapAt\<close>, \<^verbatim>\<open>moveAt\<close> and \<^verbatim>\<open>updateAt\<close> assign or insert array slots. Where the
  source would leave an \<^verbatim>\<open>undefined\<close> slot or a hole in the array, a list cannot hold
  the result and the model returns \<open>None\<close>.
\<close>

definition appendAt :: "'a list \<Rightarrow> 'a \<Rightarrow> 'a list" where
  "appendAt data v = data @ [v]"

definition prependAt :: "'a list \<Rightarrow> 'a \<Rightarrow> 'a list" where
  "prependAt data v = v # data"

definition swapAt :: "'a list \<Rightarrow> jsindex \<Rightarrow> jsindex \<Rightarrow> 'a list option" where
  \<comment> \<open>\<^verbatim>\<open>data[indexA] = [data[indexB], (data[indexB] = data[indexA])][0]\<close>\<close>
  "swapAt data indexA indexB =
     (case (indexA, indexB) of
        (Some a, Some b) \<Rightarrow>
          if js_in indexA data \<and> js_in indexB data
          then Some ((data[nat b := data ! nat a])[nat a := data ! nat b])
          else None
      | _ \<Rightarrow> None)"

definition isUndefined :: "jsindex \<Rightarrow> bool" where
  \<comment> \<open>Modelled from the spec: the helper \<^verbatim>\<open>utils/isUndefined\<close> is not part of the sources;
      \<^verbatim>\<open>remove\<close> with its index omitted clears the array, so the helper holds of
      \<^verbatim>\<open>undefined\<close> and of nothing else.\<close>
  "isUndefined a = (a = None)"

definition removeAt :: "'a list \<Rightarrow> jsindex \<Rightarrow> 'a list" where
  \<comment> \<open>The splice works on a copy, \<^verbatim>\<open>[...data]\<close>.\<close>
  "removeAt data index = (if isUndefined index then [] else snd (splice data index 1 []))"

definition moveAt :: "'a list \<Rightarrow> jsindex \<Rightarrow> jsindex \<Rightarrow> 'a list option" where
  \<comment> \<open>\<^verbatim>\<open>data.splice(to, 0, data.splice(from, 1)[0])\<close>: the inner splice runs first.\<close>
  "moveAt data from to =
     (case splice data from 1 [] of
        (removed, rest) \<Rightarrow>
          (case removed of
             [] \<Rightarrow> None
           | x # _ \<Rightarrow> Some (snd (splice rest to 0 [x]))))"

definition insertAt :: "'a list \<Rightarrow> jsindex \<Rightarrow> 'a \<Rightarrow> 'a list" where
  "insertAt data index v = slice data (Some 0) index @ [v] @ slice data index None"

definition updateAt :: "'a list \<Rightarrow> jsindex \<Rightarrow> 'a \<Rightarrow> 'a list option" where
  \<comment> \<open>\<^verbatim>\<open>clone[index] = value\<close> on a copy. At an index of the array the slot is overwritten
      and at the length the array grows by the value. Below 0, or with \<^verbatim>\<open>undefined\<close>, the
      assignment makes a property named by the index and the elements stay as they are.
      Beyond the length the array would get holes.\<close>
  "updateAt data index v =
     (case index of
        None \<Rightarrow> Some data
      | Some i \<Rightarrow>
          if i < 0 then Some data
          else if i < int (length data) then Some (data[nat i := v])
          else if i = int (length data) then Some (data @ [v])
          else None)"


section \<open>Entries, the form store and the controller state\<close>

text \<open>
  An entry is the object \<^verbatim>\<open>createEntry\<close> returns: its key and the value captured by the
  closure. Everything else an entry shows is computed from the live state on each read.
\<close>

record 'v entry =
  key :: nat
  captured :: 'v

datatype transform =
  AppendAt | PrependAt | RemoveAt | SwapAt | MoveAt | InsertAt | UpdateAt | Identity

text \<open>One call of \<^verbatim>\<open>setFieldArrayValue\<close>, as the store receives it. A fifth argument
  that the caller leaves out is \<open>None\<close>.\<close>

record 'v commit =
  c_name :: string
  c_seq :: "'v list"
  c_transform :: transform
  c_argA :: jsindex
  c_argB :: jsindex
  c_revalidate :: "bool option"

text \<open>The state: the closure variables \<^verbatim>\<open>name\<close>, \<^verbatim>\<open>fields.value\<close> and \<^verbatim>\<open>seed\<close> of the
  controller, and the store's side.\<close>

record 'v state =
  arr_name :: string
  vals :: "'v list"
  commits :: "'v commit list"
  writes :: "(string \<times> 'v) list"
  fields_value :: "'v entry list"
  seed :: nat

definition path_of :: "string \<Rightarrow> int \<Rightarrow> string" where
  \<comment> \<open>The template literal \<^verbatim>\<open>`${name}.${index}`\<close>.\<close>
  "path_of nm i = nm @ ''.'' @ string_of_int i"

text \<open>
  Modelled from the spec: the form context behind \<^verbatim>\<open>useFormContext\<close> is not part of the
  sources. Of the store, the state keeps the value array at the path of this field array
  (\<open>vals\<close>, what \<^verbatim>\<open>getFieldValue(name).value\<close> reads) and the calls it has received
  (\<open>commits\<close>, \<open>writes\<close>).
\<close>

definition setFieldArrayValue ::
  "string \<Rightarrow> 'v list \<Rightarrow> transform \<Rightarrow> jsindex \<Rightarrow> jsindex \<Rightarrow> bool option \<Rightarrow> 'v state \<Rightarrow> 'v state" where
  \<comment> \<open>Modelled from the spec: commits a structural edit. The sequence passed becomes the
      value at the array's path, unchanged, and the call is recorded with its transform,
      the transform's arguments and the revalidate argument.\<close>
  "setFieldArrayValue nm sq tf a b rv s =
     s\<lparr>vals := (if nm = arr_name s then sq else vals s),
       commits := commits s @
         [\<lparr>c_name = nm, c_seq = sq, c_transform = tf, c_argA = a, c_argB = b,
           c_revalidate = rv\<rparr>]\<rparr>"

definition setFieldValue :: "string \<Rightarrow> 'v \<Rightarrow> 'v state \<Rightarrow> 'v state" where
  \<comment> \<open>Modelled from the spec: a point write at a dotted path. It replaces the element
      of the array that the path addresses and is recorded.\<close>
  "setFieldValue path v s =
     s\<lparr>vals := map (\<lambda>(i, x). if path_of (arr_name s) (int i) = path then v else x)
                  (enumerate 0 (vals s)),
       writes := writes s @ [(path, v)]\<rparr>"

definition shouldRevalidate :: "bool option \<Rightarrow> bool" where
  \<comment> \<open>Modelled from the spec: the parameter is declared \<^verbatim>\<open>shouldRevalidate = true\<close>.\<close>
  "shouldRevalidate rv = (case rv of None \<Rightarrow> True | Some b \<Rightarrow> b)"


section \<open>The controller\<close>

datatype failure = TypeError | UndefinedSlot

text \<open>
  \<open>TypeError\<close> is the exception of a property access on \<^verbatim>\<open>undefined\<close>. \<open>UndefinedSlot\<close>
  marks the runs in which the source stores \<^verbatim>\<open>undefined\<close> into the entry array (the
  value array has the index and the entry array does not): the model stops there.
\<close>

definition createEntry :: "'v \<Rightarrow> 'v state \<Rightarrow> 'v entry \<times> 'v state" where
  \<comment> \<open>\<^verbatim>\<open>const key = seed++\<close>\<close>
  "createEntry v s = (\<lparr>key = seed s, captured = v\<rparr>, s\<lparr>seed := seed s + 1\<rparr>)"

fun createEntries :: "'v list \<Rightarrow> 'v state \<Rightarrow> 'v entry list \<times> 'v state" where
  \<comment> \<open>\<^verbatim>\<open>xs.map(createEntry)\<close>, left to right.\<close>
  "createEntries [] s = ([], s)"
| "createEntries (v # vs) s =
     (case createEntry v s of
        (e, s1) \<Rightarrow> (case createEntries vs s1 of (es, s2) \<Rightarrow> (e # es, s2)))"

definition entry_index :: "'v state \<Rightarrow> 'v entry \<Rightarrow> int" where
  "entry_index s e = findIndex (\<lambda>field. key field = key e) (fields_value s)"

definition entry_name :: "'v state \<Rightarrow> 'v entry \<Rightarrow> string" where
  "entry_name s e = path_of (arr_name s) (entry_index s e)"

definition value_get :: "'v state \<Rightarrow> 'v entry \<Rightarrow> 'v option" where
  "value_get s e =
     (if entry_index s e = - 1 then Some (captured e)
      else js_nth (vals s) (entry_index s e))"

definition value_set :: "'v state \<Rightarrow> 'v entry \<Rightarrow> 'v \<Rightarrow> 'v state" where
  "value_set s e v =
     (if entry_index s e = - 1 then s
      else setFieldValue (path_of (arr_name s) (entry_index s e)) v s)"

definition reset :: "'v state \<Rightarrow> 'v state" where
  "reset s = (case createEntries (vals s) s of (es, s1) \<Rightarrow> s1\<lparr>fields_value := es\<rparr>)"

definition append :: "'v \<Rightarrow> 'v state \<Rightarrow> 'v state" where
  "append v s =
     (let s1 = setFieldArrayValue (arr_name s) (appendAt (vals s) v) AppendAt None None None s
      in case createEntry v s1 of (e, s2) \<Rightarrow> s2\<lparr>fields_value := fields_value s2 @ [e]\<rparr>)"

definition prepend :: "'v \<Rightarrow> 'v state \<Rightarrow> 'v state" where
  "prepend v s =
     (let s1 = setFieldArrayValue (arr_name s) (prependAt (vals s) v) PrependAt None None None s
      in case createEntry v s1 of (e, s2) \<Rightarrow> s2\<lparr>fields_value := e # fields_value s2\<rparr>)"

definition remove :: "jsindex \<Rightarrow> 'v state \<Rightarrow> 'v state" where
  "remove index s =
     (let cloneValues = removeAt (vals s) index;
          cloneField = removeAt (fields_value s) index
      in (setFieldArrayValue (arr_name s) cloneValues RemoveAt index None None s)
           \<lparr>fields_value := cloneField\<rparr>)"

definition swap :: "jsindex \<Rightarrow> jsindex \<Rightarrow> 'v state \<Rightarrow> failure + 'v state" where
  "swap indexA indexB s =
     (if \<not> js_in indexA (vals s) \<or> \<not> js_in indexB (vals s) then Inr s
      else case (swapAt (vals s) indexA indexB, swapAt (fields_value s) indexA indexB) of
             (Some cloneValues, Some cloneField) \<Rightarrow>
               Inr ((setFieldArrayValue (arr_name s) cloneValues SwapAt indexA indexB
                       (Some False) s)\<lparr>fields_value := cloneField\<rparr>)
           | _ \<Rightarrow> Inl UndefinedSlot)"

definition move :: "jsindex \<Rightarrow> jsindex \<Rightarrow> 'v state \<Rightarrow> failure + 'v state" where
  "move from to s =
     (if \<not> js_in from (vals s) then Inr s
      else case (moveAt (vals s) from to, moveAt (fields_value s) from to) of
             (Some cloneValues, Some cloneField) \<Rightarrow>
               Inr ((setFieldArrayValue (arr_name s) cloneValues MoveAt from to
                       (Some False) s)\<lparr>fields_value := cloneField\<rparr>)
           | _ \<Rightarrow> Inl UndefinedSlot)"

definition insert_at :: "jsindex \<Rightarrow> 'v \<Rightarrow> 'v state \<Rightarrow> 'v state" where
  \<comment> \<open>The mutator \<^verbatim>\<open>insert\<close>; the entry is created before the commit.\<close>
  "insert_at index v s =
     (let cloneValues = insertAt (vals s) index v
      in case createEntry v s of
           (e, s1) \<Rightarrow>
             (setFieldArrayValue (arr_name s1) cloneValues InsertAt index None None s1)
               \<lparr>fields_value := insertAt (fields_value s) index e\<rparr>)"

definition update :: "jsindex \<Rightarrow> 'v \<Rightarrow> 'v state \<Rightarrow> failure + 'v state" where
  \<comment> \<open>The last statement assigns through the entry's computed \<^verbatim>\<open>value\<close>.\<close>
  "update index v s =
     (if \<not> js_in index (vals s) then Inr s
      else case updateAt (vals s) index v of
             None \<Rightarrow> Inl UndefinedSlot
           | Some cloneValue \<Rightarrow>
               (let s1 = setFieldArrayValue (arr_name s) cloneValue UpdateAt index None None s
                in case js_nth (fields_value s1) (to_integer index) of
                     None \<Rightarrow> Inl TypeError
                   | Some e \<Rightarrow> Inr (value_set s1 e v)))"

definition replace :: "'v list \<Rightarrow> 'v state \<Rightarrow> 'v state" where
  "replace vs s =
     (let s1 = setFieldArrayValue (arr_name s) vs Identity None None None s
      in case createEntries vs s1 of (es, s2) \<Rightarrow> s2\<lparr>fields_value := es\<rparr>)"

definition useFieldArray :: "string \<Rightarrow> 'v list \<Rightarrow> 'v state" where
  \<comment> \<open>Setup: no entries, \<^verbatim>\<open>seed = 0\<close>, then \<^verbatim>\<open>reset()\<close> over the store's current value
      \<open>vs\<close>. \<^verbatim>\<open>registerFieldArray\<close> hands the \<^verbatim>\<open>reset\<close> hook to the store and changes
      nothing here.\<close>
  "useFieldArray nm vs =
     reset \<lparr>arr_name = nm, vals = vs, commits = [], writes = [], fields_value = [], seed = 0\<rparr>"

text \<open>The calls the declared interface admits (\<^verbatim>\<open>UseFieldArrayReturn\<close>): every index
  is a number, and only \<^verbatim>\<open>remove\<close> may leave its index out.\<close>

datatype 'v call =
  Append 'v | Prepend 'v | Swap int int | Remove jsindex | Move int int
  | Insert int 'v | Update int 'v | Replace "'v list"

fun run :: "'v call \<Rightarrow> 'v state \<Rightarrow> failure + 'v state" where
  "run (Append v) s = Inr (append v s)"
| "run (Prepend v) s = Inr (prepend v s)"
| "run (Swap a b) s = swap (Some a) (Some b) s"
| "run (Remove i) s = Inr (remove i s)"
| "run (Move a b) s = move (Some a) (Some b) s"
| "run (Insert i v) s = Inr (insert_at (Some i) v s)"
| "run (Update i v) s = update (Some i) v s"
| "run (Replace vs) s = Inr (replace vs s)"

fun run_all :: "'v call list \<Rightarrow> 'v state \<Rightarrow> failure + 'v state" where
  "run_all [] s = Inr s"
| "run_all (c # cs) s = (case run c s of Inl e \<Rightarrow> Inl e | Inr s1 \<Rightarrow> run_all cs s1)"

text \<open>
  The states a field array can be in: after setup, after any call of a mutator, after the
  store replaces the array and invokes the registered \<^verbatim>\<open>reset\<close> hook, and after a write
  through the \<^verbatim>\<open>value\<close> of any entry handle (live or stale).
\<close>

inductive reachable :: "'v state \<Rightarrow> bool" where
  at_setup: "reachable (useFieldArray nm vs)"
| after_call: "reachable s \<Longrightarrow> run c s = Inr s' \<Longrightarrow> reachable s'"
| after_reset: "reachable s \<Longrightarrow> reachable (reset (s\<lparr>vals := vs\<rparr>))"
| after_write: "reachable s \<Longrightarrow> reachable (value_set s e v)"

section \<open>Predicates of the specification\<close>

definition missing_or_out_of_range :: "jsindex \<Rightarrow> nat \<Rightarrow> bool" where
  \<comment> \<open>An index that is left out, negative, or not below the length.\<close>
  "missing_or_out_of_range a n = (case a of None \<Rightarrow> True | Some i \<Rightarrow> i < 0 \<or> int n \<le> i)"

definition is_reordering :: "'v call \<Rightarrow> bool" where
  "is_reordering c = (case c of Swap _ _ \<Rightarrow> True | Move _ _ \<Rightarrow> True | _ \<Rightarrow> False)"

definition well_formed :: "'v state \<Rightarrow> bool" where
  \<comment> \<open>Both arrays have one length, no key occurs twice, and every key was issued.\<close>
  "well_formed s =
     (length (vals s) = length (fields_value s) \<and>
      distinct (map key (fields_value s)) \<and>
      list_all (\<lambda>e. key e < seed s) (fields_value s))"

text \<open>
  What it means that the two sequences change together: the list of pairs of a value and
  the entry at its position, and the list of pairs each call is to leave behind. The
  lists are written with \<open>take\<close>, \<open>drop\<close> and list update, not with the transforms of the
  source.
\<close>

definition without :: "nat \<Rightarrow> 'a list \<Rightarrow> 'a list" where
  \<comment> \<open>The list with position \<open>k\<close> left out; the list itself when \<open>k\<close> is no position.\<close>
  "without k xs = take k xs @ drop (Suc k) xs"

definition with_at :: "nat \<Rightarrow> 'a \<Rightarrow> 'a list \<Rightarrow> 'a list" where
  \<comment> \<open>The list with \<open>x\<close> put in before position \<open>k\<close>.\<close>
  "with_at k x xs = take k xs @ x # drop k xs"

definition fresh_entry :: "'v state \<Rightarrow> 'v \<Rightarrow> 'v entry" where
  "fresh_entry s v = \<lparr>key = seed s, captured = v\<rparr>"

definition paired :: "'v state \<Rightarrow> ('v \<times> 'v entry) list" where
  "paired s = zip (vals s) (fields_value s)"

fun paired_after :: "'v call \<Rightarrow> 'v state \<Rightarrow> ('v \<times> 'v entry) list" where
  "paired_after (Append v) s = paired s @ [(v, fresh_entry s v)]"
| "paired_after (Prepend v) s = (v, fresh_entry s v) # paired s"
| "paired_after (Swap a b) s =
     (let ps = paired s
      in if 0 \<le> a \<and> a < int (length ps) \<and> 0 \<le> b \<and> b < int (length ps)
         then ps[nat a := ps ! nat b, nat b := ps ! nat a] else ps)"
| "paired_after (Remove None) s = []"
| "paired_after (Remove (Some i)) s = without (relative_index i (length (paired s))) (paired s)"
| "paired_after (Move a b) s =
     (let ps = paired s
      in if 0 \<le> a \<and> a < int (length ps)
         then with_at (relative_index b (length ps - 1)) (ps ! nat a) (without (nat a) ps)
         else ps)"
| "paired_after (Insert i v) s =
     with_at (relative_index i (length (paired s))) (v, fresh_entry s v) (paired s)"
| "paired_after (Update i v) s =
     (let ps = paired s
      in if 0 \<le> i \<and> i < int (length ps) then ps[nat i := (v, snd (ps ! nat i))] else ps)"
| "paired_after (Replace vs) s =
     zip vs (map (\<lambda>(k, v). \<lparr>key = k, captured = v\<rparr>) (zip [seed s ..< seed s + length vs] vs))"

definition example3 :: "nat state" where
  \<comment> \<open>A field array set up over the three values 10, 20, 30.\<close>
  "example3 = useFieldArray ''list'' [10, 20, 30]"


section \<open>Facts about the array transforms\<close>


lemma relative_index_le: "relative_index i n \<le> n"
  by (auto simp add: relative_index_def)

lemma mset_take_drop: "mset (take k xs) + mset (drop k xs) = mset xs"
  by (simp flip: mset_append)

lemma take_one_drop: "k < length xs \<Longrightarrow> take (Suc 0) (drop k xs) = [xs ! k]"
  by (simp flip: Cons_nth_drop_Suc)

lemma mset_cut:
  "mset (take d (drop s xs)) + mset (take s xs @ drop (s + d) xs) = mset xs"
proof -
  have "drop (s + d) xs = drop d (drop s xs)"
    by (simp add: add.commute)
  then have "mset (take d (drop s xs)) + mset (take s xs @ drop (s + d) xs)
      = (mset (take d (drop s xs)) + mset (drop d (drop s xs))) + mset (take s xs)"
    by simp
  also have "\<dots> = mset (drop s xs) + mset (take s xs)"
    by (simp only: mset_take_drop)
  also have "\<dots> = mset xs"
    using mset_take_drop [of s xs] by (simp only: add.commute)
  finally show ?thesis .
qed

lemma removeAt_Some:
  "removeAt xs (Some i) =
     (let k = relative_index i (length xs) in take k xs @ drop (k + min 1 (length xs - k)) xs)"
  by (simp add: removeAt_def isUndefined_def splice_def to_integer_def Let_def)

lemma removeAt_cases:
  "removeAt xs (Some i) = xs \<and> relative_index i (length xs) = length xs
   \<or> (relative_index i (length xs) < length xs \<and>
      removeAt xs (Some i) =
        take (relative_index i (length xs)) xs @ drop (Suc (relative_index i (length xs))) xs)"
proof (cases "relative_index i (length xs) < length xs")
  case True
  then show ?thesis by (simp add: removeAt_Some Let_def min_def)
next
  case False
  with relative_index_le [of i "length xs"] have "relative_index i (length xs) = length xs"
    by simp
  then show ?thesis by (simp add: removeAt_Some Let_def)
qed

lemma length_removeAt:
  "length (removeAt xs i) =
     (case i of None \<Rightarrow> 0
      | Some j \<Rightarrow> if relative_index j (length xs) < length xs then length xs - 1 else length xs)"
proof (cases i)
  case None
  then show ?thesis by (simp add: removeAt_def isUndefined_def)
next
  case (Some j)
  with relative_index_le [of j "length xs"] show ?thesis
    by (auto simp add: removeAt_Some Let_def min_def)
qed

lemma removeAt_same_length:
  "length xs = length ys \<Longrightarrow> length (removeAt xs i) = length (removeAt ys i)"
  by (cases i) (simp_all add: length_removeAt)

lemma mset_removeAt: "mset (removeAt xs i) \<subseteq># mset xs"
proof (cases i)
  case None
  then show ?thesis by (simp add: removeAt_def isUndefined_def)
next
  case (Some j)
  let ?k = "relative_index j (length xs)"
  from removeAt_cases [of xs j] show ?thesis
  proof
    assume "removeAt xs (Some j) = xs \<and> ?k = length xs"
    with Some show ?thesis by simp
  next
    assume a: "?k < length xs \<and> removeAt xs (Some j) = take ?k xs @ drop (Suc ?k) xs"
    then have "xs = take ?k xs @ xs ! ?k # drop (Suc ?k) xs"
      by (simp add: id_take_nth_drop)
    then have "mset xs = mset (take ?k xs @ drop (Suc ?k) xs) + {#xs ! ?k#}"
      by (metis mset.simps(2) mset_append union_mset_add_mset_right add.right_neutral)
    with a Some show ?thesis by simp
  qed
qed

lemma swapAt_Some:
  "swapAt xs a b = Some ys \<Longrightarrow> mset ys = mset xs \<and> length ys = length xs"
  by (auto simp add: swapAt_def js_in_def mset_swap split: option.splits if_splits)

lemma swapAt_defined:
  "js_in a xs \<Longrightarrow> js_in b xs \<Longrightarrow> \<exists>ys. swapAt xs a b = Some ys"
  by (auto simp add: swapAt_def js_in_def split: option.splits)

lemma splice_remove_one:
  "splice xs from 1 [] = (removed, rest) \<Longrightarrow>
     mset removed + mset rest = mset xs \<and> length removed \<le> 1"
  using mset_cut [of "min 1 (length xs - relative_index (to_integer from) (length xs))"
      "relative_index (to_integer from) (length xs)" xs]
  by (auto simp add: splice_def Let_def)

lemma splice_insert:
  "mset (snd (splice xs to 0 items)) = mset xs + mset items"
  using mset_take_drop [of "relative_index (to_integer to) (length xs)" xs]
  by (simp add: splice_def Let_def)

lemma moveAt_Some:
  assumes "moveAt xs from to = Some ys"
  shows "mset ys = mset xs"
proof -
  obtain removed rest where sp: "splice xs from 1 [] = (removed, rest)"
    by (cases "splice xs from 1 []")
  with assms obtain x where r: "removed = [x]" and ys: "ys = snd (splice rest to 0 [x])"
    using splice_remove_one [OF sp]
    by (cases removed) (auto simp add: moveAt_def)
  from splice_remove_one [OF sp] r have "mset xs = mset rest + {#x#}" by simp
  with ys show ?thesis by (simp add: splice_insert)
qed

lemma moveAt_defined:
  assumes "js_in from xs"
  shows "\<exists>ys. moveAt xs from to = Some ys"
proof -
  from assms obtain i where i: "from = Some i" "0 \<le> i" "i < int (length xs)"
    by (auto simp add: js_in_def split: option.splits)
  then have "relative_index (to_integer from) (length xs) = nat i" "nat i < length xs"
    by (simp_all add: relative_index_def to_integer_def)
  then have "fst (splice xs from 1 []) = [xs ! nat i]"
    by (auto simp add: splice_def Let_def min_def take_one_drop)
  then show ?thesis
    by (cases "splice xs from 1 []") (simp add: moveAt_def)
qed

lemma insertAt_Some:
  "insertAt xs (Some i) v =
     take (relative_index i (length xs)) xs @ v # drop (relative_index i (length xs)) xs"
  by (simp add: insertAt_def slice_def to_integer_def relative_index_def Let_def)


section \<open>Evaluation helpers\<close>

lemma example3_eval:
  "example3 = \<lparr>arr_name = ''list'', vals = [10, 20, 30], commits = [], writes = [],
      fields_value = [\<lparr>key = 0, captured = 10\<rparr>, \<lparr>key = 1, captured = 20\<rparr>,
        \<lparr>key = 2, captured = 30\<rparr>], seed = 3\<rparr>"
  by (simp add: example3_def useFieldArray_def reset_def createEntry_def)

section \<open>Removal\<close>

text \<open>
  Claim C7. \<^verbatim>\<open>remove(1)\<close> on the value sequence \<open>[a, b, c]\<close> gives \<open>[a, c]\<close> and takes
  the entry at position 1 out of the entry sequence; \<^verbatim>\<open>remove()\<close> without an index
  empties both sequences, whatever they held, and does not fail.
\<close>

theorem remove_semantics:
  "(vals s = [a, b, c] \<and> fields_value s = [e0, e1, e2] \<longrightarrow>
      vals (remove (Some 1) s) = [a, c] \<and> fields_value (remove (Some 1) s) = [e0, e2])
   \<and> vals (remove None s) = [] \<and> fields_value (remove None s) = []"
  by (simp add: remove_def removeAt_def isUndefined_def splice_def to_integer_def relative_index_def
      setFieldArrayValue_def Let_def)

theorem remove_semantics_witness:
  "vals example3 = [10, 20, 30]
   \<and> fields_value example3 =
       [\<lparr>key = 0, captured = 10\<rparr>, \<lparr>key = 1, captured = 20\<rparr>, \<lparr>key = 2, captured = 30\<rparr>]
   \<and> vals (remove (Some 1) example3) = [10, 30]
   \<and> fields_value (remove (Some 1) example3) =
       [\<lparr>key = 0, captured = 10\<rparr>, \<lparr>key = 2, captured = 30\<rparr>]
   \<and> vals (remove None example3) = []"
  using remove_semantics [of example3 10 20 30 "\<lparr>key = 0, captured = 10\<rparr>"
      "\<lparr>key = 1, captured = 20\<rparr>" "\<lparr>key = 2, captured = 30\<rparr>"]
  by (simp add: example3_eval)

section \<open>Moving there and back\<close>

lemma moveAt3a: "moveAt [a, b, c] (Some 0) (Some 2) = Some [b, c, a]"
  by (simp add: moveAt_def splice_def to_integer_def relative_index_def Let_def)

lemma moveAt3b: "moveAt [b, c, a] (Some 2) (Some 0) = Some [a, b, c]"
  by (simp add: moveAt_def splice_def to_integer_def relative_index_def Let_def)

text \<open>
  Claim C9. On a three-element array, \<^verbatim>\<open>move(0, 2)\<close> followed by \<^verbatim>\<open>move(2, 0)\<close> succeeds
  and restores the value sequence and the entry sequence; every entry handle reads the
  value it read before.
\<close>

theorem move_round_trip:
  assumes "vals s = [a, b, c]" and "fields_value s = [e0, e1, e2]"
  shows "\<exists>s1 s2. move (Some 0) (Some 2) s = Inr s1 \<and> vals s1 = [b, c, a]
           \<and> fields_value s1 = [e1, e2, e0]
           \<and> move (Some 2) (Some 0) s1 = Inr s2
           \<and> run_all [Move 0 2, Move 2 0] s = Inr s2
           \<and> vals s2 = [a, b, c] \<and> fields_value s2 = [e0, e1, e2]
           \<and> (\<forall>e. value_get s2 e = value_get s e)"
  using assms
  by (simp add: move_def js_in_def moveAt3a moveAt3b setFieldArrayValue_def value_get_def
      entry_index_def)

theorem move_round_trip_witness:
  "vals example3 = [10, 20, 30]
   \<and> fields_value example3 =
       [\<lparr>key = 0, captured = 10\<rparr>, \<lparr>key = 1, captured = 20\<rparr>, \<lparr>key = 2, captured = 30\<rparr>]
   \<and> (\<exists>s2. run_all [Move 0 2, Move 2 0] example3 = Inr s2
         \<and> vals s2 = [10, 20, 30] \<and> fields_value s2 = fields_value example3
         \<and> (\<forall>e. value_get s2 e = value_get example3 e))"
  using move_round_trip [of example3 10 20 30 "\<lparr>key = 0, captured = 10\<rparr>"
      "\<lparr>key = 1, captured = 20\<rparr>" "\<lparr>key = 2, captured = 30\<rparr>"]
  by (auto simp add: example3_eval)

section \<open>The guard in the words of the specification\<close>

lemma not_js_in: "(\<not> js_in a xs) = missing_or_out_of_range a (length xs)"
  by (auto simp add: js_in_def missing_or_out_of_range_def split: option.splits)

section \<open>Removal at a negative index\<close>

text \<open>
  Claim C10. On sequences of length \<open>n\<close> and for \<open>-n \<le> i \<le> -1\<close>, \<^verbatim>\<open>remove(i)\<close> deletes the
  element at position \<open>n + i\<close> of the value sequence and of the entry sequence, and both
  end with length \<open>n - 1\<close>, which is less than \<open>n\<close>.
\<close>

theorem remove_negative_index:
  assumes "length (vals s) = n" and "length (fields_value s) = n"
    and "- int n \<le> i" and "i \<le> - 1"
  shows "vals (remove (Some i) s)
           = take (nat (int n + i)) (vals s) @ drop (Suc (nat (int n + i))) (vals s)
         \<and> fields_value (remove (Some i) s)
           = take (nat (int n + i)) (fields_value s) @ drop (Suc (nat (int n + i))) (fields_value s)
         \<and> length (vals (remove (Some i) s)) = n - 1
         \<and> length (fields_value (remove (Some i) s)) = n - 1
         \<and> n - 1 < n"
proof -
  have r: "removeAt xs (Some i) = take (nat (int n + i)) xs @ drop (Suc (nat (int n + i))) xs"
    if "length xs = n" for xs :: "'b list"
  proof -
    from that assms(3,4) have "relative_index i (length xs) = nat (int n + i)"
      and "nat (int n + i) < length xs"
      by (auto simp add: relative_index_def)
    then show ?thesis
      by (simp add: removeAt_Some Let_def min_def)
  qed
  from assms(3,4) have k: "nat (int n + i) < n" by linarith
  have v: "vals (remove (Some i) s) = removeAt (vals s) (Some i)"
    and f: "fields_value (remove (Some i) s) = removeAt (fields_value s) (Some i)"
    by (simp_all add: remove_def setFieldArrayValue_def Let_def)
  from k assms(1) have "length (take (nat (int n + i)) (vals s) @ drop (Suc (nat (int n + i))) (vals s)) = n - 1"
    by simp
  moreover from k assms(2) have "length (take (nat (int n + i)) (fields_value s) @ drop (Suc (nat (int n + i))) (fields_value s)) = n - 1"
    by simp
  moreover from k have "n - 1 < n" by simp
  ultimately show ?thesis
    unfolding v f r [OF assms(1)] r [OF assms(2)] by blast
qed

theorem remove_negative_index_witness:
  "length (vals example3) = 3 \<and> length (fields_value example3) = 3
   \<and> - int 3 \<le> - 1 \<and> (- 1 :: int) \<le> - 1
   \<and> vals (remove (Some (- 1)) example3) = [10, 20]
   \<and> map key (fields_value (remove (Some (- 1)) example3)) = [0, 1]"
  using remove_negative_index [of example3 3 "- 1"]
  by (simp add: example3_eval)

section \<open>Finding an entry by its key\<close>

lemma findIndex_lower: "- 1 \<le> findIndex P xs"
  by (induction xs) (simp_all add: Let_def)

lemma findIndex_absent: "(findIndex P xs = - 1) = (\<forall>x \<in> set xs. \<not> P x)"
proof (induction xs)
  case Nil
  then show ?case by simp
next
  case (Cons x xs)
  from findIndex_lower [of P xs] have "findIndex P xs + 1 \<noteq> - 1" by simp
  with Cons show ?case by (simp add: Let_def)
qed

lemma findIndex_found:
  "findIndex P xs \<noteq> - 1 \<Longrightarrow>
     0 \<le> findIndex P xs \<and> findIndex P xs < int (length xs) \<and> P (xs ! nat (findIndex P xs))"
proof (induction xs)
  case Nil
  then show ?case by simp
next
  case (Cons x xs)
  show ?case
  proof (cases "P x")
    case True
    then show ?thesis by simp
  next
    case False
    with Cons.prems have ne: "findIndex P xs \<noteq> - 1" by (simp add: Let_def split: if_splits)
    from Cons.IH [OF ne] False ne show ?thesis
      by (simp add: Let_def nat_add_distrib)
  qed
qed

lemma findIndex_distinct:
  "distinct (map f xs) \<Longrightarrow> i < length xs \<Longrightarrow> findIndex (\<lambda>x. f x = f (xs ! i)) xs = int i"
proof (induction xs arbitrary: i)
  case Nil
  then show ?case by simp
next
  case (Cons x xs)
  show ?case
  proof (cases i)
    case 0
    then show ?thesis by simp
  next
    case (Suc j)
    with Cons.prems have j: "j < length xs" and d: "distinct (map f xs)"
      and "f x \<notin> f ` set xs" by simp_all
    then have "f x \<noteq> f (xs ! j)" by (metis imageI nth_mem) 
    with Cons.IH [OF d j] Suc show ?thesis by simp
  qed
qed

section \<open>Allocating entries\<close>

lemma createEntries_eq:
  "createEntries vs s =
     (map (\<lambda>(k, v). \<lparr>key = k, captured = v\<rparr>) (zip [seed s ..< seed s + length vs] vs),
      s\<lparr>seed := seed s + length vs\<rparr>)"
proof (induction vs arbitrary: s)
  case Nil
  then show ?case by simp
next
  case (Cons v vs)
  have "[a ..< a + Suc n] = a # [Suc a ..< Suc a + n]" for a n :: nat
    by (subst upt_rec) simp
  then have "[seed s ..< seed s + length (v # vs)] = seed s # [Suc (seed s) ..< Suc (seed s) + length vs]"
    by simp
  with Cons [of "s\<lparr>seed := seed s + 1\<rparr>"] show ?case
    by (simp add: createEntry_def)
qed

lemma createEntries_keys:
  "map key (fst (createEntries vs s)) = [seed s ..< seed s + length vs]"
proof -
  have "map key (map (\<lambda>(k, v). \<lparr>key = k, captured = v\<rparr>) (zip ks vs)) = ks"
    if "length ks = length vs" for ks :: "nat list"
    using that by (induction ks vs rule: list_induct2) simp_all
  then show ?thesis by (simp add: createEntries_eq)
qed

lemma createEntries_length: "length (fst (createEntries vs s)) = length vs"
  by (simp add: createEntries_eq)

lemma value_set_same:
  "commits (value_set s e v) = commits s" "fields_value (value_set s e v) = fields_value s"
  "seed (value_set s e v) = seed s" "length (vals (value_set s e v)) = length (vals s)"
  "arr_name (value_set s e v) = arr_name s"
  by (simp_all add: value_set_def setFieldValue_def)

section \<open>The revalidate flag\<close>

lemma commits_append: "commits (append v s) = commits s @
    [\<lparr>c_name = arr_name s, c_seq = appendAt (vals s) v, c_transform = AppendAt,
      c_argA = None, c_argB = None, c_revalidate = None\<rparr>]"
  by (simp add: append_def setFieldArrayValue_def createEntry_def Let_def)

lemma commits_prepend: "commits (prepend v s) = commits s @
    [\<lparr>c_name = arr_name s, c_seq = prependAt (vals s) v, c_transform = PrependAt,
      c_argA = None, c_argB = None, c_revalidate = None\<rparr>]"
  by (simp add: prepend_def setFieldArrayValue_def createEntry_def Let_def)

lemma commits_remove: "commits (remove i s) = commits s @
    [\<lparr>c_name = arr_name s, c_seq = removeAt (vals s) i, c_transform = RemoveAt,
      c_argA = i, c_argB = None, c_revalidate = None\<rparr>]"
  by (simp add: remove_def setFieldArrayValue_def Let_def)

lemma commits_insert: "commits (insert_at i v s) = commits s @
    [\<lparr>c_name = arr_name s, c_seq = insertAt (vals s) i v, c_transform = InsertAt,
      c_argA = i, c_argB = None, c_revalidate = None\<rparr>]"
  by (simp add: insert_at_def setFieldArrayValue_def createEntry_def Let_def)

lemma commits_replace: "commits (replace vs s) = commits s @
    [\<lparr>c_name = arr_name s, c_seq = vs, c_transform = Identity,
      c_argA = None, c_argB = None, c_revalidate = None\<rparr>]"
  by (simp add: replace_def setFieldArrayValue_def createEntries_eq Let_def)

lemma commits_swap:
  "swap a b s = Inr s' \<Longrightarrow>
     s' = s \<or> (\<exists>sq. commits s' = commits s @
       [\<lparr>c_name = arr_name s, c_seq = sq, c_transform = SwapAt,
         c_argA = a, c_argB = b, c_revalidate = Some False\<rparr>])"
  by (auto simp add: swap_def setFieldArrayValue_def split: if_splits option.splits)

lemma commits_move:
  "move a b s = Inr s' \<Longrightarrow>
     s' = s \<or> (\<exists>sq. commits s' = commits s @
       [\<lparr>c_name = arr_name s, c_seq = sq, c_transform = MoveAt,
         c_argA = a, c_argB = b, c_revalidate = Some False\<rparr>])"
  by (auto simp add: move_def setFieldArrayValue_def split: if_splits option.splits)

lemma commits_update:
  "update i v s = Inr s' \<Longrightarrow>
     s' = s \<or> (\<exists>sq. commits s' = commits s @
       [\<lparr>c_name = arr_name s, c_seq = sq, c_transform = UpdateAt,
         c_argA = i, c_argB = None, c_revalidate = None\<rparr>])"
  by (auto simp add: update_def setFieldArrayValue_def value_set_same Let_def
      split: if_splits option.splits)

text \<open>
  Claim C8. Whatever a mutator call commits, it appends to the store's record of commits,
  at most one commit per call, and none only when the call leaves the state as it was.
  The commit of a \<^verbatim>\<open>swap\<close> or a \<^verbatim>\<open>move\<close> carries \<^verbatim>\<open>false\<close> as its revalidate argument; the
  commit of every other mutator leaves the argument out, so that the store's default,
  \<^verbatim>\<open>true\<close>, applies. Revalidation is suppressed exactly for the two reorderings.
\<close>

theorem revalidate_only_suppressed_for_reordering:
  assumes "run c s = Inr s'"
  shows "\<exists>new. commits s' = commits s @ new \<and> length new \<le> 1 \<and> (new = [] \<longrightarrow> s' = s)
           \<and> (\<forall>cm \<in> set new.
                 c_revalidate cm = (if is_reordering c then Some False else None)
                 \<and> shouldRevalidate (c_revalidate cm) = (\<not> is_reordering c))"
proof (cases c)
  case (Append v)
  with assms commits_append [of v s] show ?thesis
    by (auto simp add: is_reordering_def shouldRevalidate_def)
next
  case (Prepend v)
  with assms commits_prepend [of v s] show ?thesis
    by (auto simp add: is_reordering_def shouldRevalidate_def)
next
  case (Swap a b)
  with assms commits_swap [of "Some a" "Some b" s s'] show ?thesis
    by (auto simp add: is_reordering_def shouldRevalidate_def)
next
  case (Remove i)
  with assms commits_remove [of i s] show ?thesis
    by (auto simp add: is_reordering_def shouldRevalidate_def)
next
  case (Move a b)
  with assms commits_move [of "Some a" "Some b" s s'] show ?thesis
    by (auto simp add: is_reordering_def shouldRevalidate_def)
next
  case (Insert i v)
  with assms commits_insert [of "Some i" v s] show ?thesis
    by (auto simp add: is_reordering_def shouldRevalidate_def)
next
  case (Update i v)
  with assms commits_update [of "Some i" v s s'] show ?thesis
    by (auto simp add: is_reordering_def shouldRevalidate_def)
next
  case (Replace vs)
  with assms commits_replace [of vs s] show ?thesis
    by (auto simp add: is_reordering_def shouldRevalidate_def)
qed

theorem revalidate_only_suppressed_for_reordering_witness:
  "run (Swap 0 2) example3 =
     Inr (example3\<lparr>vals := [30, 20, 10],
           commits := [\<lparr>c_name = ''list'', c_seq = [30, 20, 10], c_transform = SwapAt,
             c_argA = Some 0, c_argB = Some 2, c_revalidate = Some False\<rparr>],
           fields_value := [\<lparr>key = 2, captured = 30\<rparr>, \<lparr>key = 1, captured = 20\<rparr>,
             \<lparr>key = 0, captured = 10\<rparr>]\<rparr>)
   \<and> map (\<lambda>cm. shouldRevalidate (c_revalidate cm)) (commits (append 5 example3)) = [True]"
proof -
  let ?s = "example3\<lparr>vals := [30, 20, 10],
           commits := [\<lparr>c_name = ''list'', c_seq = [30, 20, 10], c_transform = SwapAt,
             c_argA = Some 0, c_argB = Some 2, c_revalidate = Some False\<rparr>],
           fields_value := [\<lparr>key = 2, captured = 30\<rparr>, \<lparr>key = 1, captured = 20\<rparr>,
             \<lparr>key = 0, captured = 10\<rparr>]\<rparr>"
  have a: "run (Swap 0 2) example3 = Inr ?s"
    by (simp add: example3_eval swap_def js_in_def swapAt_def setFieldArrayValue_def)
  have b: "run (Append 5) example3 = Inr (append 5 example3)"
    by simp
  from revalidate_only_suppressed_for_reordering [OF a]
    revalidate_only_suppressed_for_reordering [OF b] a
  show ?thesis
    by (auto simp add: commits_append example3_eval is_reordering_def)
qed

section \<open>Reading and writing through an entry\<close>

text \<open>
  Claim C6. The derived index of an entry handle is \<open>-1\<close> exactly when no entry of the
  entry sequence carries its key. Otherwise it is a position of the entry sequence that
  holds this key; reading the value gives the element of the value array at that index,
  and writing it is the store's point write at the path \<^verbatim>\<open>name.index\<close>, which the store
  records. With index \<open>-1\<close> a read gives the value captured at creation and a write
  leaves the whole state, the store's records included, as it was.
\<close>

theorem entry_value_access:
  "(entry_index s e = - 1) = (key e \<notin> key ` set (fields_value s))
   \<and> (entry_index s e \<noteq> - 1 \<longrightarrow>
        0 \<le> entry_index s e \<and> entry_index s e < int (length (fields_value s))
        \<and> key (fields_value s ! nat (entry_index s e)) = key e
        \<and> value_get s e = js_nth (vals s) (entry_index s e)
        \<and> (length (vals s) = length (fields_value s) \<longrightarrow>
             value_get s e = Some (vals s ! nat (entry_index s e)))
        \<and> value_set s e v
            = setFieldValue (arr_name s @ ''.'' @ string_of_int (entry_index s e)) v s
        \<and> writes (value_set s e v)
            = writes s @ [(arr_name s @ ''.'' @ string_of_int (entry_index s e), v)])
   \<and> (entry_index s e = - 1 \<longrightarrow>
        value_get s e = Some (captured e) \<and> value_set s e v = s)"
proof -
  have absent: "(entry_index s e = - 1) = (key e \<notin> key ` set (fields_value s))"
    unfolding entry_index_def findIndex_absent by (auto simp add: image_iff)
  have found: "0 \<le> entry_index s e \<and> entry_index s e < int (length (fields_value s))
        \<and> key (fields_value s ! nat (entry_index s e)) = key e"
    if "entry_index s e \<noteq> - 1"
    using that findIndex_found [of "\<lambda>field. key field = key e" "fields_value s"]
    by (simp add: entry_index_def)
  from absent found show ?thesis
    by (simp add: value_get_def value_set_def js_nth_def setFieldValue_def path_of_def)
qed

theorem entry_value_access_witness:
  "entry_index example3 \<lparr>key = 2, captured = 30\<rparr> = 2
   \<and> value_get example3 \<lparr>key = 2, captured = 30\<rparr> = Some 30
   \<and> writes (value_set example3 \<lparr>key = 2, captured = 30\<rparr> 7) = [(''list.2'', 7)]
   \<and> vals (value_set example3 \<lparr>key = 2, captured = 30\<rparr> 7) = [10, 20, 7]
   \<and> entry_index example3 \<lparr>key = 8, captured = 99\<rparr> = - 1
   \<and> value_get example3 \<lparr>key = 8, captured = 99\<rparr> = Some 99
   \<and> value_set example3 \<lparr>key = 8, captured = 99\<rparr> 7 = example3"
proof -
  let ?live = "\<lparr>key = 2, captured = 30 :: nat\<rparr>" and ?stale = "\<lparr>key = 8, captured = 99 :: nat\<rparr>"
  have i: "entry_index example3 ?live = 2" "entry_index example3 ?stale = - 1"
    by (simp_all add: entry_index_def example3_eval)
  have p: "string_of_int 0 = ''0''" "string_of_int 1 = ''1''" "string_of_int 2 = ''2''"
    by (simp_all add: string_of_int_def string_of_nat.simps)
  have g: "js_nth (vals example3) 2 = Some 30"
    by (simp add: js_nth_def example3_eval)
  have w: "vals (setFieldValue ''list.2'' 7 example3) = [10, 20, 7]"
    "writes (setFieldValue ''list.2'' 7 example3) = [(''list.2'', 7)]"
    "writes example3 = []" "arr_name example3 = ''list''"
    by (simp_all add: example3_eval setFieldValue_def path_of_def p enumerate_eq_zip upt_rec)
  from entry_value_access [of example3 ?live 7] entry_value_access [of example3 ?stale 7]
  show ?thesis
    by (simp add: i p g w)
qed

section \<open>What each mutator does to the two sequences and the counter\<close>

lemma append_effect:
  "vals (append v s) = vals s @ [v]"
  "fields_value (append v s) = fields_value s @ [\<lparr>key = seed s, captured = v\<rparr>]"
  "seed (append v s) = Suc (seed s)" "arr_name (append v s) = arr_name s"
  by (simp_all add: append_def setFieldArrayValue_def createEntry_def appendAt_def Let_def)

lemma prepend_effect:
  "vals (prepend v s) = v # vals s"
  "fields_value (prepend v s) = \<lparr>key = seed s, captured = v\<rparr> # fields_value s"
  "seed (prepend v s) = Suc (seed s)" "arr_name (prepend v s) = arr_name s"
  by (simp_all add: prepend_def setFieldArrayValue_def createEntry_def prependAt_def Let_def)

lemma remove_effect:
  "vals (remove i s) = removeAt (vals s) i"
  "fields_value (remove i s) = removeAt (fields_value s) i"
  "seed (remove i s) = seed s" "arr_name (remove i s) = arr_name s"
  by (simp_all add: remove_def setFieldArrayValue_def Let_def)

lemma insert_effect:
  "vals (insert_at i v s) = insertAt (vals s) i v"
  "fields_value (insert_at i v s) = insertAt (fields_value s) i \<lparr>key = seed s, captured = v\<rparr>"
  "seed (insert_at i v s) = Suc (seed s)" "arr_name (insert_at i v s) = arr_name s"
  by (simp_all add: insert_at_def setFieldArrayValue_def createEntry_def Let_def)

lemma replace_effect:
  "vals (replace vs s) = vs"
  "map key (fields_value (replace vs s)) = [seed s ..< seed s + length vs]"
  "length (fields_value (replace vs s)) = length vs"
  "seed (replace vs s) = seed s + length vs" "arr_name (replace vs s) = arr_name s"
proof -
  let ?s1 = "setFieldArrayValue (arr_name s) vs Identity None None None s"
  have r: "replace vs s = (snd (createEntries vs ?s1))\<lparr>fields_value := fst (createEntries vs ?s1)\<rparr>"
    by (simp add: replace_def Let_def split: prod.splits)
  have s1: "seed ?s1 = seed s" "vals ?s1 = vs" "arr_name ?s1 = arr_name s"
    by (simp_all add: setFieldArrayValue_def)
  show "map key (fields_value (replace vs s)) = [seed s ..< seed s + length vs]"
    using createEntries_keys [of vs ?s1] by (simp add: r s1)
  show "length (fields_value (replace vs s)) = length vs"
    by (simp add: r createEntries_length)
  show "vals (replace vs s) = vs" "seed (replace vs s) = seed s + length vs"
    "arr_name (replace vs s) = arr_name s"
    by (simp_all add: r createEntries_eq s1)
qed

lemma reset_effect:
  "vals (reset s) = vals s"
  "map key (fields_value (reset s)) = [seed s ..< seed s + length (vals s)]"
  "length (fields_value (reset s)) = length (vals s)"
  "seed (reset s) = seed s + length (vals s)" "arr_name (reset s) = arr_name s"
  "commits (reset s) = commits s" "writes (reset s) = writes s"
proof -
  have r: "reset s = (snd (createEntries (vals s) s))\<lparr>fields_value := fst (createEntries (vals s) s)\<rparr>"
    by (simp add: reset_def split: prod.splits)
  show "map key (fields_value (reset s)) = [seed s ..< seed s + length (vals s)]"
    using createEntries_keys [of "vals s" s] by (simp add: r)
  show "length (fields_value (reset s)) = length (vals s)"
    by (simp add: r createEntries_length)
  show "vals (reset s) = vals s" "seed (reset s) = seed s + length (vals s)"
    "arr_name (reset s) = arr_name s" "commits (reset s) = commits s" "writes (reset s) = writes s"
    by (simp_all add: r createEntries_eq)
qed

lemma swap_effect:
  assumes "swap a b s = Inr s'"
  shows "s' = s \<or> (swapAt (vals s) a b = Some (vals s')
           \<and> swapAt (fields_value s) a b = Some (fields_value s')
           \<and> seed s' = seed s \<and> arr_name s' = arr_name s)"
  using assms
  by (auto simp add: swap_def setFieldArrayValue_def split: if_splits option.splits)

lemma move_effect:
  assumes "move a b s = Inr s'"
  shows "s' = s \<or> (moveAt (vals s) a b = Some (vals s')
           \<and> moveAt (fields_value s) a b = Some (fields_value s')
           \<and> seed s' = seed s \<and> arr_name s' = arr_name s)"
  using assms
  by (auto simp add: move_def setFieldArrayValue_def split: if_splits option.splits)

lemma update_effect:
  assumes "update i v s = Inr s'"
  shows "length (vals s') = length (vals s) \<and> fields_value s' = fields_value s
           \<and> seed s' = seed s \<and> arr_name s' = arr_name s"
  using assms
  by (auto simp add: update_def updateAt_def js_in_def setFieldArrayValue_def value_set_same
      Let_def split: if_splits option.splits)

lemma swap_defined:
  assumes "length (vals s) = length (fields_value s)"
  shows "\<exists>s'. swap a b s = Inr s'"
proof (cases "js_in a (vals s) \<and> js_in b (vals s)")
  case True
  with assms have "js_in a (fields_value s)" "js_in b (fields_value s)"
    by (simp_all add: js_in_def split: option.splits)
  with True swapAt_defined [of a "vals s" b] swapAt_defined [of a "fields_value s" b]
  show ?thesis by (auto simp add: swap_def)
next
  case False
  then show ?thesis by (auto simp add: swap_def)
qed

lemma move_defined:
  assumes "length (vals s) = length (fields_value s)"
  shows "\<exists>s'. move a b s = Inr s'"
proof (cases "js_in a (vals s)")
  case True
  with assms have "js_in a (fields_value s)"
    by (simp add: js_in_def split: option.splits)
  with True moveAt_defined [of a "vals s" b] moveAt_defined [of a "fields_value s" b]
  show ?thesis by (auto simp add: move_def)
next
  case False
  then show ?thesis by (simp add: move_def)
qed

lemma update_defined:
  assumes "length (vals s) = length (fields_value s)"
  shows "\<exists>s'. update i v s = Inr s'"
proof (cases "js_in i (vals s)")
  case True
  then obtain j where j: "i = Some j" "0 \<le> j" "j < int (length (vals s))"
    by (auto simp add: js_in_def split: option.splits)
  with assms have "js_nth (fields_value s) j = Some (fields_value s ! nat j)"
    by (simp add: js_nth_def)
  with True j show ?thesis
    by (simp add: update_def updateAt_def js_in_def setFieldArrayValue_def to_integer_def Let_def)
next
  case False
  then show ?thesis by (simp add: update_def)
qed

section \<open>The invariant of the controller\<close>

lemma distinct_keys_mset:
  "mset xs = mset ys \<Longrightarrow> distinct (map f xs) = distinct (map f ys)"
  by (metis mset_eq_imp_distinct_iff mset_map)

lemma well_formedI:
  "length (vals s) = length (fields_value s) \<Longrightarrow> distinct (map key (fields_value s)) \<Longrightarrow>
     (\<And>e. e \<in> set (fields_value s) \<Longrightarrow> key e < seed s) \<Longrightarrow> well_formed s"
  by (simp add: well_formed_def list_all_iff)

lemma well_formedD:
  assumes "well_formed s"
  shows "length (vals s) = length (fields_value s)" "distinct (map key (fields_value s))"
    "\<And>e. e \<in> set (fields_value s) \<Longrightarrow> key e < seed s"
  using assms by (simp_all add: well_formed_def list_all_iff)

lemma fresh_key:
  assumes "well_formed s"
  shows "seed s \<notin> key ` set (fields_value s)"
proof
  assume "seed s \<in> key ` set (fields_value s)"
  then obtain e where "e \<in> set (fields_value s)" and "seed s = key e" ..
  with well_formedD(3) [OF assms, of e] show False by simp
qed

lemma well_formed_fresh_keys:
  assumes "length (vals s) = length (fields_value s)"
    and "map key (fields_value s) = [a ..< b]" and "b \<le> seed s"
  shows "well_formed s"
proof (rule well_formedI)
  show "length (vals s) = length (fields_value s)" by (fact assms(1))
  show "distinct (map key (fields_value s))" by (simp add: assms(2))
  fix e assume "e \<in> set (fields_value s)"
  then have "key e \<in> set (map key (fields_value s))" by simp
  with assms(2,3) show "key e < seed s" by simp
qed

lemma well_formed_reset: "well_formed (reset s)"
  by (rule well_formed_fresh_keys [of _ "seed s" "seed s + length (vals s)"])
     (simp_all add: reset_effect)

lemma well_formed_setup: "well_formed (useFieldArray nm vs)"
  by (simp add: useFieldArray_def well_formed_reset)

lemma well_formed_replace: "well_formed (replace vs s)"
  by (rule well_formed_fresh_keys [of _ "seed s" "seed s + length vs"])
     (simp_all add: replace_effect)

lemma well_formed_append:
  assumes "well_formed s"
  shows "well_formed (append v s)"
proof (rule well_formedI)
  show "length (vals (append v s)) = length (fields_value (append v s))"
    using well_formedD(1) [OF assms] by (simp add: append_effect)
  show "distinct (map key (fields_value (append v s)))"
    using well_formedD(2) [OF assms] fresh_key [OF assms] by (simp add: append_effect)
  fix e assume "e \<in> set (fields_value (append v s))"
  then show "key e < seed (append v s)"
    using well_formedD(3) [OF assms, of e] by (auto simp add: append_effect less_Suc_eq)
qed

lemma well_formed_prepend:
  assumes "well_formed s"
  shows "well_formed (prepend v s)"
proof (rule well_formedI)
  show "length (vals (prepend v s)) = length (fields_value (prepend v s))"
    using well_formedD(1) [OF assms] by (simp add: prepend_effect)
  show "distinct (map key (fields_value (prepend v s)))"
    using well_formedD(2) [OF assms] fresh_key [OF assms] by (simp add: prepend_effect)
  fix e assume "e \<in> set (fields_value (prepend v s))"
  then show "key e < seed (prepend v s)"
    using well_formedD(3) [OF assms, of e] by (auto simp add: prepend_effect less_Suc_eq)
qed

lemma well_formed_insert:
  assumes "well_formed s"
  shows "well_formed (insert_at (Some i) v s)"
proof (rule well_formedI)
  let ?e = "\<lparr>key = seed s, captured = v\<rparr>"
  let ?k = "relative_index i (length (fields_value s))"
  have m: "mset (fields_value (insert_at (Some i) v s)) = mset (?e # fields_value s)"
    using mset_take_drop [of ?k "fields_value s"]
    by (simp add: insert_effect insertAt_Some)
  show "length (vals (insert_at (Some i) v s)) = length (fields_value (insert_at (Some i) v s))"
    using well_formedD(1) [OF assms] relative_index_le [of i "length (fields_value s)"]
    by (simp add: insert_effect insertAt_Some)
  show "distinct (map key (fields_value (insert_at (Some i) v s)))"
    using well_formedD(2) [OF assms] fresh_key [OF assms]
    by (simp add: distinct_keys_mset [OF m])
  fix e assume "e \<in> set (fields_value (insert_at (Some i) v s))"
  with mset_eq_setD [OF m] have "e = ?e \<or> e \<in> set (fields_value s)" by simp
  then show "key e < seed (insert_at (Some i) v s)"
    using well_formedD(3) [OF assms, of e] by (auto simp add: insert_effect less_Suc_eq)
qed

lemma distinct_map_removeAt:
  assumes "distinct (map f xs)"
  shows "distinct (map f (removeAt xs i))"
proof (cases i)
  case None
  then show ?thesis by (simp add: removeAt_def isUndefined_def)
next
  case (Some j)
  let ?k = "relative_index j (length xs)"
  from removeAt_cases [of xs j] show ?thesis
  proof
    assume "removeAt xs (Some j) = xs \<and> ?k = length xs"
    with Some assms show ?thesis by simp
  next
    assume a: "?k < length xs \<and> removeAt xs (Some j) = take ?k xs @ drop (Suc ?k) xs"
    then have "xs = take ?k xs @ xs ! ?k # drop (Suc ?k) xs"
      by (simp add: id_take_nth_drop)
    with assms have "distinct (map f (take ?k xs @ xs ! ?k # drop (Suc ?k) xs))"
      by simp
    then have "distinct (map f (take ?k xs @ drop (Suc ?k) xs))"
      by simp
    with a Some show ?thesis by simp
  qed
qed

lemma well_formed_remove:
  assumes "well_formed s"
  shows "well_formed (remove i s)"
proof (rule well_formedI)
  show "length (vals (remove i s)) = length (fields_value (remove i s))"
    using removeAt_same_length [OF well_formedD(1) [OF assms], of i] by (simp add: remove_effect)
  show "distinct (map key (fields_value (remove i s)))"
    using distinct_map_removeAt [OF well_formedD(2) [OF assms]]
    by (simp add: remove_effect)
  fix e assume "e \<in> set (fields_value (remove i s))"
  with set_mset_mono [OF mset_removeAt [of "fields_value s" i]]
  have "e \<in> set (fields_value s)" by (auto simp add: remove_effect)
  then show "key e < seed (remove i s)"
    using well_formedD(3) [OF assms, of e] by (simp add: remove_effect)
qed

lemma well_formed_permuted:
  assumes "well_formed s" and "mset (vals s') = mset (vals s)"
    and "mset (fields_value s') = mset (fields_value s)" and "seed s' = seed s"
  shows "well_formed s'"
proof (rule well_formedI)
  from assms(2,3) have "length (vals s') = length (vals s)"
    "length (fields_value s') = length (fields_value s)"
    by (metis size_mset)+
  with well_formedD(1) [OF assms(1)] show "length (vals s') = length (fields_value s')" by simp
  show "distinct (map key (fields_value s'))"
    using well_formedD(2) [OF assms(1)] by (simp add: distinct_keys_mset [OF assms(3)])
  fix e assume "e \<in> set (fields_value s')"
  with mset_eq_setD [OF assms(3)] have "e \<in> set (fields_value s)" by simp
  then show "key e < seed s'"
    using well_formedD(3) [OF assms(1), of e] by (simp add: assms(4))
qed

lemma well_formed_swap:
  assumes "well_formed s" and "swap a b s = Inr s'"
  shows "well_formed s'"
  using swap_effect [OF assms(2)]
proof
  assume "s' = s"
  with assms(1) show ?thesis by simp
next
  assume e: "swapAt (vals s) a b = Some (vals s') \<and>
    swapAt (fields_value s) a b = Some (fields_value s') \<and> seed s' = seed s \<and> arr_name s' = arr_name s"
  with swapAt_Some [of "vals s" a b "vals s'"]
    swapAt_Some [of "fields_value s" a b "fields_value s'"]
  show ?thesis by (intro well_formed_permuted [OF assms(1)]) simp_all
qed

lemma well_formed_move:
  assumes "well_formed s" and "move a b s = Inr s'"
  shows "well_formed s'"
  using move_effect [OF assms(2)]
proof
  assume "s' = s"
  with assms(1) show ?thesis by simp
next
  assume e: "moveAt (vals s) a b = Some (vals s') \<and>
    moveAt (fields_value s) a b = Some (fields_value s') \<and> seed s' = seed s \<and> arr_name s' = arr_name s"
  with moveAt_Some [of "vals s" a b "vals s'"]
    moveAt_Some [of "fields_value s" a b "fields_value s'"]
  show ?thesis by (intro well_formed_permuted [OF assms(1)]) simp_all
qed

lemma well_formed_same_entries:
  assumes "well_formed s" and "length (vals s') = length (vals s)"
    and "fields_value s' = fields_value s" and "seed s' = seed s"
  shows "well_formed s'"
  using assms by (simp add: well_formed_def)

lemma well_formed_update:
  assumes "well_formed s" and "update i v s = Inr s'"
  shows "well_formed s'"
  using update_effect [OF assms(2)] by (intro well_formed_same_entries [OF assms(1)]) simp_all

lemma well_formed_value_set:
  assumes "well_formed s"
  shows "well_formed (value_set s e v)"
  by (rule well_formed_same_entries [OF assms]) (simp_all add: value_set_same)

lemma well_formed_run:
  assumes "well_formed s" and "run c s = Inr s'"
  shows "well_formed s'"
proof (cases c)
  case (Append v)
  with assms show ?thesis by (auto simp add: well_formed_append)
next
  case (Prepend v)
  with assms show ?thesis by (auto simp add: well_formed_prepend)
next
  case (Swap a b)
  with assms well_formed_swap [of s "Some a" "Some b" s'] show ?thesis by simp
next
  case (Remove i)
  with assms show ?thesis by (auto simp add: well_formed_remove)
next
  case (Move a b)
  with assms well_formed_move [of s "Some a" "Some b" s'] show ?thesis by simp
next
  case (Insert i v)
  with assms show ?thesis by (auto simp add: well_formed_insert)
next
  case (Update i v)
  with assms well_formed_update [of s "Some i" v s'] show ?thesis by simp
next
  case (Replace vs)
  with assms show ?thesis by (auto simp add: well_formed_replace)
qed

lemma run_defined:
  assumes "length (vals s) = length (fields_value s)"
  shows "\<exists>s'. run c s = Inr s'"
proof (cases c)
  case (Swap a b)
  with swap_defined [OF assms, of "Some a" "Some b"] show ?thesis by simp
next
  case (Move a b)
  with move_defined [OF assms, of "Some a" "Some b"] show ?thesis by simp
next
  case (Update i v)
  with update_defined [OF assms, of "Some i" v] show ?thesis by simp
qed simp_all

lemma reachable_well_formed: "reachable s \<Longrightarrow> well_formed s"
proof (induction rule: reachable.induct)
  case (at_setup nm vs)
  show ?case by (rule well_formed_setup)
next
  case (after_call s c s')
  then show ?case by (simp add: well_formed_run)
next
  case (after_reset s vs)
  show ?case by (rule well_formed_reset)
next
  case (after_write s e v)
  then show ?case by (simp add: well_formed_value_set)
qed

section \<open>Reordering keeps every entry\<close>

lemma reordering_step:
  assumes "length (vals s) = length (fields_value s)" and "is_reordering c"
  shows "\<exists>s'. run c s = Inr s' \<and> mset (fields_value s') = mset (fields_value s)
           \<and> seed s' = seed s \<and> length (vals s') = length (fields_value s')"
proof -
  from run_defined [OF assms(1), of c] obtain s' where r: "run c s = Inr s'" ..
  have "mset (fields_value s') = mset (fields_value s) \<and> seed s' = seed s
      \<and> mset (vals s') = mset (vals s)"
  proof (cases c)
    case (Swap a b)
    with r have "swap (Some a) (Some b) s = Inr s'" by simp
    from swap_effect [OF this] show ?thesis
      by (auto dest: swapAt_Some)
  next
    case (Move a b)
    with r have "move (Some a) (Some b) s = Inr s'" by simp
    from move_effect [OF this] show ?thesis
      by (auto dest: moveAt_Some)
  qed (use assms(2) in \<open>simp_all add: is_reordering_def\<close>)
  moreover from this have "length (fields_value s') = length (fields_value s)"
    "length (vals s') = length (vals s)"
    by (metis size_mset)+
  ultimately show ?thesis using r assms(1) by simp
qed

text \<open>
  Claim C4. Starting from sequences of one length, every finite sequence of \<^verbatim>\<open>swap\<close> and
  \<^verbatim>\<open>move\<close> calls runs to its end and leaves the entry sequence a rearrangement of the
  entries it held before: the same entries, each with the key it had, none added and
  none dropped. The counter of the allocator does not move, so no key is issued.
\<close>

theorem reordering_keeps_keys:
  assumes "length (vals s) = length (fields_value s)" and "list_all is_reordering cs"
  shows "\<exists>s'. run_all cs s = Inr s'
           \<and> mset (fields_value s') = mset (fields_value s)
           \<and> mset (map key (fields_value s')) = mset (map key (fields_value s))
           \<and> seed s' = seed s
           \<and> length (vals s') = length (fields_value s')"
  using assms
proof (induction cs arbitrary: s)
  case Nil
  then show ?case by simp
next
  case (Cons c cs)
  from Cons.prems have "is_reordering c" and rest: "list_all is_reordering cs" by simp_all
  from reordering_step [OF Cons.prems(1) this(1)] obtain s1 where
    s1: "run c s = Inr s1" "mset (fields_value s1) = mset (fields_value s)"
      "seed s1 = seed s" "length (vals s1) = length (fields_value s1)"
    by blast
  from Cons.IH [OF s1(4) rest] obtain s' where
    "run_all cs s1 = Inr s'" "mset (fields_value s') = mset (fields_value s1)"
      "seed s' = seed s1" "length (vals s') = length (fields_value s')"
    by blast
  with s1 have "run_all (c # cs) s = Inr s' \<and> mset (fields_value s') = mset (fields_value s)
      \<and> seed s' = seed s \<and> length (vals s') = length (fields_value s')"
    by simp
  moreover from this have "mset (map key (fields_value s')) = mset (map key (fields_value s))"
    by (metis mset_map)
  ultimately show ?case by blast
qed

theorem reordering_keeps_keys_witness:
  "length (vals example3) = length (fields_value example3)
   \<and> list_all is_reordering [Swap 0 2, Move 1 0, Move 2 5, Swap 0 7 :: nat call]
   \<and> (\<exists>s'. run_all [Swap 0 2, Move 1 0, Move 2 5, Swap 0 7] example3 = Inr s'
         \<and> mset (map key (fields_value s')) = mset [0, 1, 2] \<and> seed s' = 3)"
proof -
  have a: "length (vals example3) = length (fields_value example3)"
    by (simp add: example3_eval)
  have b: "list_all is_reordering [Swap 0 2, Move 1 0, Move 2 5, Swap 0 7 :: nat call]"
    by (simp add: is_reordering_def)
  have c: "map key (fields_value example3) = [0, 1, 2]" "seed example3 = 3"
    by (simp_all add: example3_eval)
  from reordering_keeps_keys [OF a b] a b show ?thesis
    unfolding c by blast
qed

section \<open>The allocator of keys\<close>




section \<open>The two sequences stay aligned\<close>

lemma aligned:
  assumes "well_formed s" and "i < length (fields_value s)"
  shows "entry_index s (fields_value s ! i) = int i"
    and "entry_name s (fields_value s ! i) = arr_name s @ ''.'' @ string_of_int (int i)"
    and "value_get s (fields_value s ! i) = Some (vals s ! i)"
proof -
  show i: "entry_index s (fields_value s ! i) = int i"
    unfolding entry_index_def
    by (rule findIndex_distinct [OF well_formedD(2) [OF assms(1)] assms(2)])
  show "entry_name s (fields_value s ! i) = arr_name s @ ''.'' @ string_of_int (int i)"
    by (simp add: entry_name_def path_of_def i)
  from assms(2) well_formedD(1) [OF assms(1)]
  show "value_get s (fields_value s ! i) = Some (vals s ! i)"
    by (simp add: value_get_def js_nth_def i)
qed

lemma run_arr_name:
  assumes "run c s = Inr s'"
  shows "arr_name s' = arr_name s"
proof (cases c)
  case (Swap a b)
  with assms have "swap (Some a) (Some b) s = Inr s'" by simp
  from swap_effect [OF this] show ?thesis by auto
next
  case (Move a b)
  with assms have "move (Some a) (Some b) s = Inr s'" by simp
  from move_effect [OF this] show ?thesis by auto
next
  case (Update i v)
  with assms have "update (Some i) v s = Inr s'" by simp
  from update_effect [OF this] show ?thesis by simp
qed (use assms in \<open>auto simp add: append_effect prepend_effect remove_effect insert_effect
    replace_effect\<close>)

section \<open>Paths name positions\<close>

lemma string_of_nat_nonempty: "string_of_nat n \<noteq> []"
  by (subst string_of_nat.simps) simp

lemma digit_inj:
  assumes "a < 10" and "b < 10" and "''0123456789'' ! a = ''0123456789'' ! b"
  shows "a = b"
proof -
  have "distinct ''0123456789''" by simp
  moreover from assms have "a < length ''0123456789''" "b < length ''0123456789''" by simp_all
  ultimately show ?thesis using assms(3) by (simp only: nth_eq_iff_index_eq)
qed

lemma string_of_nat_inj: "string_of_nat n = string_of_nat m \<Longrightarrow> n = m"
proof (induction n arbitrary: m rule: string_of_nat.induct)
  case (1 n)
  show ?case
  proof (cases "n < 10")
    case True
    show ?thesis
    proof (cases "m < 10")
      case m: True
      from "1.prems" True m have "''0123456789'' ! n = ''0123456789'' ! m"
        by (simp add: string_of_nat.simps [of n] string_of_nat.simps [of m])
      with True m show ?thesis by (rule digit_inj)
    next
      case m: False
      from "1.prems" True m have "string_of_nat (m div 10) = []"
        by (simp add: string_of_nat.simps [of n] string_of_nat.simps [of m])
      with string_of_nat_nonempty show ?thesis by blast
    qed
  next
    case False
    show ?thesis
    proof (cases "m < 10")
      case m: True
      from "1.prems" False m have "string_of_nat (n div 10) = []"
        by (simp add: string_of_nat.simps [of n] string_of_nat.simps [of m])
      with string_of_nat_nonempty show ?thesis by blast
    next
      case m: False
      from "1.prems" False m have e: "string_of_nat (n div 10) = string_of_nat (m div 10)"
        and d: "''0123456789'' ! (n mod 10) = ''0123456789'' ! (m mod 10)"
        by (simp_all add: string_of_nat.simps [of n] string_of_nat.simps [of m])
      from "1.IH" [OF False e] have "n div 10 = m div 10" .
      moreover from d have "n mod 10 = m mod 10" by (intro digit_inj) simp_all
      ultimately show ?thesis by (metis div_mult_mod_eq)
    qed
  qed
qed

lemma path_of_inj: "path_of nm (int i) = path_of nm (int j) \<Longrightarrow> i = j"
  by (simp add: path_of_def string_of_int_def string_of_nat_inj)

lemma setFieldValue_point:
  "vals (setFieldValue (path_of (arr_name s) (int i)) v s) = (vals s)[i := v]"
proof (rule nth_equalityI)
  show "length (vals (setFieldValue (path_of (arr_name s) (int i)) v s)) = length ((vals s)[i := v])"
    by (simp add: setFieldValue_def)
  fix j assume "j < length (vals (setFieldValue (path_of (arr_name s) (int i)) v s))"
  then have j: "j < length (vals s)" by (simp add: setFieldValue_def)
  then have "vals (setFieldValue (path_of (arr_name s) (int i)) v s) ! j
      = (if path_of (arr_name s) (int j) = path_of (arr_name s) (int i) then v else vals s ! j)"
    by (simp add: setFieldValue_def nth_enumerate_eq)
  also have "\<dots> = (vals s)[i := v] ! j"
    using j path_of_inj [of "arr_name s" j i] by (cases "j = i") auto
  finally show "vals (setFieldValue (path_of (arr_name s) (int i)) v s) ! j = (vals s)[i := v] ! j" .
qed

section \<open>The transforms in terms of take, drop and update\<close>

lemma removeAt_without:
  "removeAt xs (Some i) = without (relative_index i (length xs)) xs"
  using removeAt_cases [of xs i] by (auto simp add: without_def)

lemma insertAt_with_at:
  "insertAt xs (Some i) v = with_at (relative_index i (length xs)) v xs"
  by (simp add: insertAt_Some with_at_def)

lemma swapAt_in_range:
  assumes "0 \<le> a" "a < int (length xs)" "0 \<le> b" "b < int (length xs)"
  shows "swapAt xs (Some a) (Some b) = Some (xs[nat a := xs ! nat b, nat b := xs ! nat a])"
proof -
  have "xs[nat b := xs ! nat a, nat a := xs ! nat b] = xs[nat a := xs ! nat b, nat b := xs ! nat a]"
    by (cases "nat a = nat b") (simp_all add: list_update_swap)
  with assms show ?thesis by (simp add: swapAt_def js_in_def)
qed

lemma moveAt_in_range:
  assumes "0 \<le> a" "a < int (length xs)"
  shows "moveAt xs (Some a) to
     = Some (with_at (relative_index (to_integer to) (length xs - 1)) (xs ! nat a)
               (without (nat a) xs))"
proof -
  from assms have r: "relative_index a (length xs) = nat a" and l: "nat a < length xs"
    by (simp_all add: relative_index_def)
  then have "splice xs (Some a) 1 [] = ([xs ! nat a], without (nat a) xs)"
    by (auto simp add: splice_def to_integer_def Let_def min_def take_one_drop without_def)
  moreover from l have "length (without (nat a) xs) = length xs - 1"
    by (simp add: without_def)
  ultimately show ?thesis
    by (simp add: moveAt_def splice_def Let_def with_at_def)
qed

lemma zip_without:
  "length xs = length ys \<Longrightarrow> zip (without k xs) (without k ys) = without k (zip xs ys)"
  by (simp add: without_def take_zip drop_zip)

lemma zip_with_at:
  "length xs = length ys \<Longrightarrow> zip (with_at k x xs) (with_at k y ys) = with_at k (x, y) (zip xs ys)"
  by (simp add: with_at_def take_zip drop_zip)

section \<open>The exact result of the guarded mutators\<close>

lemma swap_exact:
  assumes "length (fields_value s) = length (vals s)"
    and "0 \<le> a" "a < int (length (vals s))" "0 \<le> b" "b < int (length (vals s))"
  shows "\<exists>s'. swap (Some a) (Some b) s = Inr s'
     \<and> vals s' = (vals s)[nat a := vals s ! nat b, nat b := vals s ! nat a]
     \<and> fields_value s' = (fields_value s)[nat a := fields_value s ! nat b, nat b := fields_value s ! nat a]"
proof -
  from assms have f: "a < int (length (fields_value s))" "b < int (length (fields_value s))"
    by simp_all
  from assms(2-5) have "js_in (Some a) (vals s)" "js_in (Some b) (vals s)"
    by (simp_all add: js_in_def)
  then show ?thesis
    by (simp add: swap_def swapAt_in_range [OF assms(2,3,4,5)]
        swapAt_in_range [OF assms(2) f(1) assms(4) f(2)] setFieldArrayValue_def)
qed

lemma swap_guarded:
  "\<not> (0 \<le> a \<and> a < int (length (vals s)) \<and> 0 \<le> b \<and> b < int (length (vals s))) \<Longrightarrow>
     swap (Some a) (Some b) s = Inr s"
  by (auto simp add: swap_def js_in_def)

lemma move_exact:
  assumes "length (fields_value s) = length (vals s)"
    and "from = Some a" and "0 \<le> a" and "a < int (length (vals s))"
  shows "\<exists>s'. move from to s = Inr s'
     \<and> vals s' = with_at (relative_index (to_integer to) (length (vals s) - 1))
                    (vals s ! nat a) (without (nat a) (vals s))
     \<and> fields_value s' = with_at (relative_index (to_integer to) (length (vals s) - 1))
                    (fields_value s ! nat a) (without (nat a) (fields_value s))
     \<and> commits s' = commits s @
          [\<lparr>c_name = arr_name s, c_seq = vals s', c_transform = MoveAt,
            c_argA = from, c_argB = to, c_revalidate = Some False\<rparr>]
     \<and> seed s' = seed s \<and> arr_name s' = arr_name s \<and> writes s' = writes s"
proof -
  from assms have f: "a < int (length (fields_value s))" by simp
  from assms(3,4) have "js_in (Some a) (vals s)" by (simp add: js_in_def)
  then show ?thesis
    by (simp add: move_def assms(2) moveAt_in_range [OF assms(3,4)]
        moveAt_in_range [OF assms(3) f] assms(1) setFieldArrayValue_def)
qed

lemma move_guarded:
  "\<not> (0 \<le> a \<and> a < int (length (vals s))) \<Longrightarrow> move (Some a) to s = Inr s"
  by (auto simp add: move_def js_in_def)

lemma update_exact:
  assumes "well_formed s" and "0 \<le> i" and "i < int (length (vals s))"
  shows "update (Some i) v s = Inr (value_set
           (setFieldArrayValue (arr_name s) ((vals s)[nat i := v]) UpdateAt (Some i) None None s)
           (fields_value s ! nat i) v)"
    and "\<exists>s'. update (Some i) v s = Inr s' \<and> vals s' = (vals s)[nat i := v]
           \<and> fields_value s' = fields_value s"
proof -
  let ?s1 = "setFieldArrayValue (arr_name s) ((vals s)[nat i := v]) UpdateAt (Some i) None None s"
  let ?e = "fields_value s ! nat i"
  from assms well_formedD(1) [OF assms(1)] have n: "nat i < length (fields_value s)" by simp
  have s1: "fields_value ?s1 = fields_value s" "vals ?s1 = (vals s)[nat i := v]"
    "arr_name ?s1 = arr_name s" "seed ?s1 = seed s"
    by (simp_all add: setFieldArrayValue_def)
  from assms(2,3) n show u: "update (Some i) v s = Inr (value_set ?s1 ?e v)"
    by (simp add: update_def js_in_def updateAt_def js_nth_def to_integer_def Let_def s1)
  have "well_formed ?s1"
    by (rule well_formed_same_entries [OF assms(1)]) (simp_all add: s1)
  from aligned(1) [OF this, of "nat i"] n have ix: "entry_index ?s1 ?e = int (nat i)"
    by (simp only: s1)
  then have "entry_index ?s1 ?e \<noteq> - 1" by simp
  then have "value_set ?s1 ?e v = setFieldValue (path_of (arr_name ?s1) (entry_index ?s1 ?e)) v ?s1"
    by (simp add: value_set_def)
  then have "vals (value_set ?s1 ?e v)
      = vals (setFieldValue (path_of (arr_name ?s1) (int (nat i))) v ?s1)"
    by (simp only: ix)
  also have "\<dots> = (vals ?s1)[nat i := v]"
    by (rule setFieldValue_point)
  also have "\<dots> = (vals s)[nat i := v]"
    by (simp add: s1)
  finally have "vals (value_set ?s1 ?e v) = (vals s)[nat i := v]" .
  with u show "\<exists>s'. update (Some i) v s = Inr s' \<and> vals s' = (vals s)[nat i := v]
           \<and> fields_value s' = fields_value s"
    by (simp add: value_set_same s1)
qed

lemma update_guarded:
  "\<not> (0 \<le> i \<and> i < int (length (vals s))) \<Longrightarrow> update (Some i) v s = Inr s"
  by (auto simp add: update_def js_in_def)

lemma replace_fields:
  "fields_value (replace vs s)
     = map (\<lambda>(k, v). \<lparr>key = k, captured = v\<rparr>) (zip [seed s ..< seed s + length vs] vs)"
  by (simp add: replace_def createEntries_eq setFieldArrayValue_def Let_def)

section \<open>Values and entries travel together\<close>

lemma run_paired:
  assumes "well_formed s" and "run c s = Inr s'"
  shows "zip (vals s') (fields_value s') = paired_after c s"
proof -
  note len = well_formedD(1) [OF assms(1)]
  have lz: "length (zip (vals s) (fields_value s)) = length (vals s)"
    using len by simp
  show ?thesis
  proof (cases c)
    case (Append v)
    with assms(2) len show ?thesis
      by (auto simp add: append_effect paired_def fresh_entry_def)
  next
    case (Prepend v)
    with assms(2) show ?thesis
      by (auto simp add: prepend_effect paired_def fresh_entry_def)
  next
    case (Swap a b)
    show ?thesis
    proof (cases "0 \<le> a \<and> a < int (length (vals s)) \<and> 0 \<le> b \<and> b < int (length (vals s))")
      case True
      then have r: "0 \<le> a" "a < int (length (vals s))" "0 \<le> b" "b < int (length (vals s))"
        by simp_all
      from swap_exact [OF len [symmetric] r] assms(2) Swap
      have "vals s' = (vals s)[nat a := vals s ! nat b, nat b := vals s ! nat a]"
        "fields_value s' = (fields_value s)[nat a := fields_value s ! nat b, nat b := fields_value s ! nat a]"
        by auto
      moreover from r len have "zip (vals s) (fields_value s) ! nat a = (vals s ! nat a, fields_value s ! nat a)"
        "zip (vals s) (fields_value s) ! nat b = (vals s ! nat b, fields_value s ! nat b)"
        by simp_all
      ultimately show ?thesis using Swap True len
        by (simp add: paired_def zip_update Let_def)
    next
      case False
      with swap_guarded [OF False] assms(2) Swap len show ?thesis
        by (auto simp add: paired_def Let_def)
    qed
  next
    case (Remove i)
    show ?thesis
    proof (cases i)
      case None
      with Remove assms(2) show ?thesis
        by (auto simp add: remove_effect removeAt_def isUndefined_def)
    next
      case (Some j)
      with Remove assms(2) len show ?thesis
        by (auto simp add: remove_effect removeAt_without zip_without paired_def)
    qed
  next
    case (Move a b)
    show ?thesis
    proof (cases "0 \<le> a \<and> a < int (length (vals s))")
      case True
      then have r: "0 \<le> a" "a < int (length (vals s))" by simp_all
      from move_exact [OF len [symmetric] refl r, of "Some b"] assms(2) Move
      have "vals s' = with_at (relative_index b (length (vals s) - 1))
                    (vals s ! nat a) (without (nat a) (vals s))"
        "fields_value s' = with_at (relative_index b (length (vals s) - 1))
                    (fields_value s ! nat a) (without (nat a) (fields_value s))"
        by (auto simp add: to_integer_def)
      moreover from r len have "zip (vals s) (fields_value s) ! nat a = (vals s ! nat a, fields_value s ! nat a)"
        by simp
      moreover from len have "length (without (nat a) (vals s)) = length (without (nat a) (fields_value s))"
        by (simp add: without_def)
      ultimately show ?thesis using Move True len
        by (simp add: paired_def zip_with_at zip_without Let_def)
    next
      case False
      with move_guarded [OF False] assms(2) Move len show ?thesis
        by (auto simp add: paired_def Let_def)
    qed
  next
    case (Insert i v)
    with assms(2) len show ?thesis
      by (auto simp add: insert_effect insertAt_with_at zip_with_at paired_def fresh_entry_def)
  next
    case (Update i v)
    show ?thesis
    proof (cases "0 \<le> i \<and> i < int (length (vals s))")
      case True
      then have r: "0 \<le> i" "i < int (length (vals s))" by simp_all
      from update_exact(2) [OF assms(1) r, of v] assms(2) Update
      have "vals s' = (vals s)[nat i := v]" "fields_value s' = fields_value s"
        by auto
      moreover from r len have "zip (vals s) (fields_value s) ! nat i = (vals s ! nat i, fields_value s ! nat i)"
        by simp
      moreover have "zip ((vals s)[nat i := v]) (fields_value s)
          = (zip (vals s) (fields_value s))[nat i := (v, fields_value s ! nat i)]"
        using zip_update [of "vals s" "nat i" v "fields_value s" "fields_value s ! nat i"]
        by simp
      ultimately show ?thesis using Update True len
        by (simp add: paired_def Let_def)
    next
      case False
      with update_guarded [OF False] assms(2) Update len show ?thesis
        by (auto simp add: paired_def Let_def)
    qed
  next
    case (Replace vs)
    with assms(2) show ?thesis
      by (auto simp add: replace_effect replace_fields)
  qed
qed

section \<open>Removal at an index outside the array\<close>

text \<open>
  Claim C2 as stated fails: \<^verbatim>\<open>remove\<close> applies the one \<^verbatim>\<open>removeAt\<close> to both sequences. On
  three elements \<^verbatim>\<open>remove(5)\<close> leaves the values and the entries as they were, every
  entry still named by its position; and \<^verbatim>\<open>remove(-7)\<close>, below the range, is not a no-op
  on the value side: it deletes the first element of both.
\<close>

theorem remove_out_of_range_keeps_sync:
  "vals (remove (Some 5) example3) = vals example3
   \<and> fields_value (remove (Some 5) example3) = fields_value example3
   \<and> length (vals (remove (Some 5) example3)) = length (fields_value (remove (Some 5) example3))
   \<and> map (entry_name (remove (Some 5) example3)) (fields_value (remove (Some 5) example3))
       = [''list.0'', ''list.1'', ''list.2'']
   \<and> vals (remove (Some (- 7)) example3) = [20, 30]
   \<and> map key (fields_value (remove (Some (- 7)) example3)) = [1, 2]"
  by (simp add: example3_eval remove_def removeAt_def isUndefined_def splice_def to_integer_def
      relative_index_def setFieldArrayValue_def Let_def entry_name_def entry_index_def
      path_of_def string_of_int_def string_of_nat.simps)

text \<open>
  Claim C2, amended. When the two sequences have one length, \<^verbatim>\<open>remove(i)\<close> takes the
  element at one and the same position out of both: the position \<^verbatim>\<open>splice\<close> gives \<open>i\<close> (an
  \<open>i\<close> below 0 counts from the end, and the result is clamped to \<open>0..length\<close>), and
  nothing out of either when that position is the length. So the sequences keep one
  length, every value that stays keeps its entry, and for an index at or above the length
  both sequences are unchanged. Without an index both become empty. No entry is added.
\<close>

theorem remove_applies_one_splice:
  assumes "length (vals s) = length (fields_value s)"
  shows "length (vals (remove i s)) = length (fields_value (remove i s))
     \<and> (i = None \<longrightarrow> vals (remove i s) = [] \<and> fields_value (remove i s) = [])
     \<and> (\<forall>j. i = Some j \<longrightarrow>
           vals (remove i s)
             = take (relative_index j (length (vals s))) (vals s)
               @ drop (Suc (relative_index j (length (vals s)))) (vals s)
           \<and> fields_value (remove i s)
             = take (relative_index j (length (vals s))) (fields_value s)
               @ drop (Suc (relative_index j (length (vals s)))) (fields_value s))
     \<and> zip (vals (remove i s)) (fields_value (remove i s)) = paired_after (Remove i) s
     \<and> (\<forall>j. i = Some j \<and> int (length (vals s)) \<le> j \<longrightarrow>
           vals (remove i s) = vals s \<and> fields_value (remove i s) = fields_value s)
     \<and> mset (fields_value (remove i s)) \<subseteq># mset (fields_value s)"
proof -
  have v: "vals (remove i s) = removeAt (vals s) i"
    and f: "fields_value (remove i s) = removeAt (fields_value s) i"
    by (simp_all add: remove_def setFieldArrayValue_def Let_def)
  have none: "removeAt xs None = []" for xs :: "'b list"
    by (simp add: removeAt_def isUndefined_def)
  have same: "removeAt xs (Some j) = xs" if "int (length xs) \<le> j" for xs :: "'b list" and j
    using that by (simp add: removeAt_Some relative_index_def Let_def)
  have above: "removeAt (vals s) i = vals s \<and> removeAt (fields_value s) i = fields_value s"
    if "i = Some j \<and> int (length (vals s)) \<le> j" for j
  proof -
    from that assms have "int (length (vals s)) \<le> j" "int (length (fields_value s)) \<le> j"
      by simp_all
    from same [OF this(1)] same [OF this(2)] that show ?thesis by simp
  qed
  have cut: "removeAt (vals s) i
             = take (relative_index j (length (vals s))) (vals s)
               @ drop (Suc (relative_index j (length (vals s)))) (vals s)
           \<and> removeAt (fields_value s) i
             = take (relative_index j (length (vals s))) (fields_value s)
               @ drop (Suc (relative_index j (length (vals s)))) (fields_value s)"
    if "i = Some j" for j
    using that assms by (simp add: removeAt_without without_def)
  have pairs: "zip (removeAt (vals s) i) (removeAt (fields_value s) i) = paired_after (Remove i) s"
  proof (cases i)
    case None
    then show ?thesis by (simp add: none)
  next
    case (Some j)
    with assms show ?thesis
      by (simp add: removeAt_without zip_without paired_def)
  qed
  have empty: "removeAt (vals s) i = [] \<and> removeAt (fields_value s) i = []" if "i = None"
    using that by (simp add: none)
  from removeAt_same_length [OF assms, of i] mset_removeAt [of "fields_value s" i]
    above cut pairs empty
  show ?thesis
    unfolding v f by blast
qed

theorem remove_applies_one_splice_witness:
  "length (vals example3) = length (fields_value example3)
   \<and> vals (remove (Some 5) example3) = vals example3
   \<and> fields_value (remove (Some 5) example3) = fields_value example3
   \<and> vals (remove (Some (- 7)) example3) = [20, 30]
   \<and> map key (fields_value (remove (Some (- 7)) example3)) = [1, 2]
   \<and> vals (remove (Some 2) example3) = [10, 20]
   \<and> map key (fields_value (remove (Some 2) example3)) = [0, 1]"
proof -
  have l: "length (vals example3) = length (fields_value example3)"
    by (simp add: example3_eval)
  have e: "vals example3 = [10, 20, 30]"
    "fields_value example3 = [\<lparr>key = 0, captured = 10\<rparr>, \<lparr>key = 1, captured = 20\<rparr>,
        \<lparr>key = 2, captured = 30\<rparr>]"
    by (simp_all add: example3_eval)
  have r: "relative_index (- 7) (length (vals example3)) = 0"
    "relative_index 2 (length (vals example3)) = 2"
    by (simp_all add: relative_index_def e)
  have h: "int (length (vals example3)) \<le> 5"
    by (simp add: e)
  from remove_applies_one_splice [OF l, of "Some 5"] h
  have a: "vals (remove (Some 5) example3) = vals example3"
    "fields_value (remove (Some 5) example3) = fields_value example3"
    by blast+
  from remove_applies_one_splice [OF l, of "Some (- 7)"]
  have "vals (remove (Some (- 7)) example3)
      = take (relative_index (- 7) (length (vals example3))) (vals example3)
        @ drop (Suc (relative_index (- 7) (length (vals example3)))) (vals example3)"
    "fields_value (remove (Some (- 7)) example3)
      = take (relative_index (- 7) (length (vals example3))) (fields_value example3)
        @ drop (Suc (relative_index (- 7) (length (vals example3)))) (fields_value example3)"
    by blast+
  then have b: "vals (remove (Some (- 7)) example3) = [20, 30]"
    "map key (fields_value (remove (Some (- 7)) example3)) = [1, 2]"
    unfolding r by (simp_all add: e)
  from remove_applies_one_splice [OF l, of "Some 2"]
  have "vals (remove (Some 2) example3)
      = take (relative_index 2 (length (vals example3))) (vals example3)
        @ drop (Suc (relative_index 2 (length (vals example3)))) (vals example3)"
    "fields_value (remove (Some 2) example3)
      = take (relative_index 2 (length (vals example3))) (fields_value example3)
        @ drop (Suc (relative_index 2 (length (vals example3)))) (fields_value example3)"
    by blast+
  then have c: "vals (remove (Some 2) example3) = [10, 20]"
    "map key (fields_value (remove (Some 2) example3)) = [0, 1]"
    unfolding r by (simp_all add: e)
  from l a b c show ?thesis by simp
qed

section \<open>What the index guards let through\<close>

text \<open>
  Claim C3 as stated fails for \<^verbatim>\<open>move\<close>: only \<^verbatim>\<open>from\<close> is guarded. With \<^verbatim>\<open>to = 5\<close> on
  three elements, \<^verbatim>\<open>move(0, 5)\<close> commits the sequence with the first element moved to the
  end, and reorders the entries.
\<close>

theorem move_to_out_of_range_commits:
  "missing_or_out_of_range (Some 5) (length (vals example3))
   \<and> move (Some 0) (Some 5) example3 =
       Inr (example3\<lparr>vals := [20, 30, 10],
             commits := [\<lparr>c_name = ''list'', c_seq = [20, 30, 10], c_transform = MoveAt,
               c_argA = Some 0, c_argB = Some 5, c_revalidate = Some False\<rparr>],
             fields_value := [\<lparr>key = 1, captured = 20\<rparr>, \<lparr>key = 2, captured = 30\<rparr>,
               \<lparr>key = 0, captured = 10\<rparr>]\<rparr>)
   \<and> move (Some 0) (Some 5) example3 \<noteq> Inr example3"
  by (simp add: example3_eval missing_or_out_of_range_def move_def js_in_def moveAt_def
      splice_def to_integer_def relative_index_def setFieldArrayValue_def Let_def)

text \<open>
  Claim C3, amended. \<^verbatim>\<open>swap\<close> with either index missing or out of range, \<^verbatim>\<open>move\<close> with
  \<^verbatim>\<open>from\<close> missing or out of range, and \<^verbatim>\<open>update\<close> with its index missing or out of range
  return the state as it was: no sequence changes and no commit is recorded. A \<^verbatim>\<open>move\<close>
  whose \<^verbatim>\<open>from\<close> is a current index is carried out whatever \<^verbatim>\<open>to\<close> is (the sequences
  having one length): the element at \<^verbatim>\<open>from\<close> is taken out of both sequences and put back,
  in both, at the position \<^verbatim>\<open>splice\<close> gives \<^verbatim>\<open>to\<close> among the elements that remain (a \<^verbatim>\<open>to\<close>
  below 0 counts from the end, the result is clamped to \<open>0..length - 1\<close>, a missing \<^verbatim>\<open>to\<close>
  is 0); exactly one commit is recorded, of the new value sequence, with the arguments of
  the call and revalidation suppressed.
\<close>

theorem guarded_mutators_noop:
  "(missing_or_out_of_range a (length (vals s)) \<or> missing_or_out_of_range b (length (vals s))
      \<longrightarrow> swap a b s = Inr s)
   \<and> (missing_or_out_of_range from (length (vals s)) \<longrightarrow> move from to s = Inr s)
   \<and> (missing_or_out_of_range i (length (vals s)) \<longrightarrow> update i v s = Inr s)
   \<and> (\<not> missing_or_out_of_range from (length (vals s))
        \<and> length (fields_value s) = length (vals s) \<longrightarrow>
        (\<exists>s'. move from to s = Inr s'
           \<and> vals s' = with_at (relative_index (to_integer to) (length (vals s) - 1))
                          (vals s ! nat (to_integer from))
                          (without (nat (to_integer from)) (vals s))
           \<and> fields_value s' = with_at (relative_index (to_integer to) (length (vals s) - 1))
                          (fields_value s ! nat (to_integer from))
                          (without (nat (to_integer from)) (fields_value s))
           \<and> commits s' = commits s @
                [\<lparr>c_name = arr_name s, c_seq = vals s', c_transform = MoveAt,
                  c_argA = from, c_argB = to, c_revalidate = Some False\<rparr>]
           \<and> length (commits s') = Suc (length (commits s))
           \<and> seed s' = seed s \<and> writes s' = writes s \<and> arr_name s' = arr_name s))"
proof -
  have "\<exists>s'. move from to s = Inr s'
           \<and> vals s' = with_at (relative_index (to_integer to) (length (vals s) - 1))
                          (vals s ! nat (to_integer from))
                          (without (nat (to_integer from)) (vals s))
           \<and> fields_value s' = with_at (relative_index (to_integer to) (length (vals s) - 1))
                          (fields_value s ! nat (to_integer from))
                          (without (nat (to_integer from)) (fields_value s))
           \<and> commits s' = commits s @
                [\<lparr>c_name = arr_name s, c_seq = vals s', c_transform = MoveAt,
                  c_argA = from, c_argB = to, c_revalidate = Some False\<rparr>]
           \<and> length (commits s') = Suc (length (commits s))
           \<and> seed s' = seed s \<and> writes s' = writes s \<and> arr_name s' = arr_name s"
    if a: "\<not> missing_or_out_of_range from (length (vals s))"
      and b: "length (fields_value s) = length (vals s)"
  proof -
    from a obtain f where f: "from = Some f" "0 \<le> f" "f < int (length (vals s))"
      by (cases "from") (auto simp add: missing_or_out_of_range_def)
    from move_exact [OF b f, of to] obtain s' where
      m: "move from to s = Inr s'"
        "vals s' = with_at (relative_index (to_integer to) (length (vals s) - 1))
                    (vals s ! nat f) (without (nat f) (vals s))"
        "fields_value s' = with_at (relative_index (to_integer to) (length (vals s) - 1))
                    (fields_value s ! nat f) (without (nat f) (fields_value s))"
        "commits s' = commits s @
          [\<lparr>c_name = arr_name s, c_seq = vals s', c_transform = MoveAt,
            c_argA = from, c_argB = to, c_revalidate = Some False\<rparr>]"
        "seed s' = seed s" "arr_name s' = arr_name s" "writes s' = writes s"
      by blast
    from m(4) have "length (commits s') = Suc (length (commits s))" by simp
    with m f(1) show ?thesis by (simp add: to_integer_def)
  qed
  then show ?thesis
    by (simp add: swap_def move_def update_def flip: not_js_in)
qed

theorem guarded_mutators_noop_witness:
  "missing_or_out_of_range (Some 5) (length (vals example3))
   \<and> swap (Some 0) (Some 5) example3 = Inr example3
   \<and> missing_or_out_of_range None (length (vals example3))
   \<and> move None (Some 1) example3 = Inr example3
   \<and> missing_or_out_of_range (Some (- 1)) (length (vals example3))
   \<and> update (Some (- 1)) 7 example3 = Inr example3
   \<and> \<not> missing_or_out_of_range (Some 0) (length (vals example3))
   \<and> length (fields_value example3) = length (vals example3)
   \<and> (\<exists>s'. move (Some 0) (Some 5) example3 = Inr s'
         \<and> vals s' = [20, 30, 10] \<and> map key (fields_value s') = [1, 2, 0]
         \<and> map c_seq (commits s') = [[20, 30, 10]]
         \<and> map c_revalidate (commits s') = [Some False])"
proof -
  have h: "missing_or_out_of_range (Some 5) (length (vals example3))"
    "missing_or_out_of_range None (length (vals example3))"
    "missing_or_out_of_range (Some (- 1)) (length (vals example3))"
    "\<not> missing_or_out_of_range (Some 0) (length (vals example3))"
    "length (fields_value example3) = length (vals example3)"
    by (simp_all add: example3_eval missing_or_out_of_range_def)
  have e: "vals example3 = [10, 20, 30]"
    "fields_value example3 = [\<lparr>key = 0, captured = 10\<rparr>, \<lparr>key = 1, captured = 20\<rparr>,
        \<lparr>key = 2, captured = 30\<rparr>]"
    "commits example3 = []"
    by (simp_all add: example3_eval)
  have k: "relative_index (to_integer (Some 5)) (length (vals example3) - 1) = 2"
    "nat (to_integer (Some 0)) = 0"
    by (simp_all add: relative_index_def to_integer_def e)
  note t1 = guarded_mutators_noop [of "Some 0" example3 "Some 5" None "Some 1" "Some (- 1)" 7]
  note t2 = guarded_mutators_noop [of "Some 0" example3 "Some 5" "Some 0" "Some 5" "Some (- 1)" 7]
  from t1 h have n: "swap (Some 0) (Some 5) example3 = Inr example3"
    "move None (Some 1) example3 = Inr example3"
    "update (Some (- 1)) 7 example3 = Inr example3"
    by blast+
  from t2 h obtain s' where m: "move (Some 0) (Some 5) example3 = Inr s'"
    "vals s' = with_at (relative_index (to_integer (Some 5)) (length (vals example3) - 1))
                          (vals example3 ! nat (to_integer (Some 0)))
                          (without (nat (to_integer (Some 0))) (vals example3))"
    "fields_value s' = with_at (relative_index (to_integer (Some 5)) (length (vals example3) - 1))
                          (fields_value example3 ! nat (to_integer (Some 0)))
                          (without (nat (to_integer (Some 0))) (fields_value example3))"
    "commits s' = commits example3 @
                [\<lparr>c_name = arr_name example3, c_seq = vals s', c_transform = MoveAt,
                  c_argA = Some 0, c_argB = Some 5, c_revalidate = Some False\<rparr>]"
    by blast
  from m(2,3) have "vals s' = [20, 30, 10]" "map key (fields_value s') = [1, 2, 0]"
    unfolding k by (simp_all add: e with_at_def without_def)
  with m(1,4) h n show ?thesis
    by (simp add: e)
qed

section \<open>Every mutator keeps the sequences aligned\<close>

text \<open>
  Claim C1. In every state a field array can reach, every call of a mutator (append,
  prepend, swap, remove, move, insert, update, replace) completes, and afterwards the
  value sequence and the entry sequence have the same length and the same order: the
  pairs of a value and the entry at its position are the pairs from before the call,
  changed by the one edit the call stands for (\<open>paired_after\<close>), so no value changes
  places without its entry. For every position \<open>i\<close> the entry at \<open>i\<close> has derived index
  \<open>i\<close>, has the name \<^verbatim>\<open>name.i\<close>, and reads the value at position \<open>i\<close> of the value
  sequence.
\<close>

theorem mutators_keep_sequences_aligned:
  assumes "reachable s"
  shows "\<exists>s'. run c s = Inr s'
           \<and> length (vals s') = length (fields_value s')
           \<and> zip (vals s') (fields_value s') = paired_after c s
           \<and> (\<forall>i < length (fields_value s').
                 entry_index s' (fields_value s' ! i) = int i
                 \<and> entry_name s' (fields_value s' ! i) = arr_name s @ ''.'' @ string_of_int (int i)
                 \<and> value_get s' (fields_value s' ! i) = Some (vals s' ! i))"
proof -
  from assms have w: "well_formed s" by (rule reachable_well_formed)
  from run_defined [OF well_formedD(1) [OF w], of c] obtain s' where r: "run c s = Inr s'" ..
  from w r have w': "well_formed s'" by (rule well_formed_run)
  from run_arr_name [OF r] aligned [OF w'] well_formedD(1) [OF w'] r run_paired [OF w r]
  show ?thesis by simp
qed

theorem mutators_keep_sequences_aligned_witness:
  "reachable example3
   \<and> (\<exists>s'. run (Insert 1 7) example3 = Inr s'
         \<and> vals s' = [10, 7, 20, 30]
         \<and> map key (fields_value s') = [0, 3, 1, 2]
         \<and> length (vals s') = length (fields_value s')
         \<and> entry_name s' (fields_value s' ! 1) = ''list.1'')
   \<and> (\<exists>s'. run (Swap 0 2) example3 = Inr s'
         \<and> zip (vals s') (map key (fields_value s')) = [(30, 2), (20, 1), (10, 0)])"
proof -
  have r: "reachable example3"
    unfolding example3_def by (rule reachable.at_setup)
  have p: "string_of_int 1 = ''1''"
    by (simp add: string_of_int_def string_of_nat.simps)
  have v: "vals (insert_at (Some 1) 7 example3) = [10, 7, 20, 30]"
    "map key (fields_value (insert_at (Some 1) 7 example3)) = [0, 3, 1, 2]"
    "arr_name example3 = ''list''"
    by (simp_all add: insert_effect insertAt_Some relative_index_def example3_eval)
  have q: "paired_after (Swap 0 2) example3
      = [(30, \<lparr>key = 2, captured = 30\<rparr>), (20, \<lparr>key = 1, captured = 20\<rparr>),
         (10, \<lparr>key = 0, captured = 10\<rparr>)]"
    by (simp add: paired_def example3_eval)
  from mutators_keep_sequences_aligned [OF r, of "Swap 0 2"] obtain s2 where
    s2: "run (Swap 0 2) example3 = Inr s2" "length (vals s2) = length (fields_value s2)"
      "zip (vals s2) (fields_value s2) = paired_after (Swap 0 2) example3"
    by blast
  from s2(2,3) have "map fst (zip (vals s2) (fields_value s2)) = [30, 20, 10]"
    "map snd (zip (vals s2) (fields_value s2)) = [\<lparr>key = 2, captured = 30\<rparr>,
       \<lparr>key = 1, captured = 20\<rparr>, \<lparr>key = 0, captured = 10\<rparr>]"
    by (simp_all only: q list.map fst_conv snd_conv)
  with s2(2) have "vals s2 = [30, 20, 10]" "map key (fields_value s2) = [2, 1, 0]"
    by simp_all
  with s2(1) have b: "\<exists>s'. run (Swap 0 2) example3 = Inr s'
         \<and> zip (vals s') (map key (fields_value s')) = [(30, 2), (20, 1), (10, 0)]"
    by simp
  from mutators_keep_sequences_aligned [OF r, of "Insert 1 7"] r b
  show ?thesis
    by (auto simp add: v p)
qed

end
